theory Spec2Isabelle
  imports Complex_Main "HOL-Library.Multiset" "HOL-Library.Product_Lexorder" "HOL-Library.Log_Nat"
begin

section \<open>Missing-page detection (modules/page\_numbers.py)\<close>

text \<open>
  \<^verbatim>\<open>detect_missing_pages\<close> receives a list of \<open>(page_index, page_number)\<close> tuples.
  Python's \<^verbatim>\<open>sorted(..., key=lambda x: x[1])\<close> is a stable sort, as is \<open>sort_key\<close>.
  The loop over \<^verbatim>\<open>range(len(page_numbers) - 1)\<close> visits every pair of neighbours of the
  sorted numbers; \<^verbatim>\<open>range(current + 1, next_num)\<close> is the integer interval
  \<open>[current + 1..next_num - 1]\<close>.
\<close>

fun missing_between :: "int list \<Rightarrow> int list" where
  "missing_between (current # next_num # rest) =
     (if next_num - current > 1 then [current + 1..next_num - 1] else [])
       @ missing_between (next_num # rest)"
| "missing_between _ = []"

definition detect_missing_pages :: "(nat \<times> int) list \<Rightarrow> int list" where
  "detect_missing_pages pages_with_numbers =
     (if length pages_with_numbers < 2 then []
      else let sorted_pages = sort_key snd pages_with_numbers;
               page_numbers = map snd sorted_pages
           in missing_between page_numbers)"

section \<open>Page records\<close>

text \<open>
  A page is a Python dictionary that the pipeline stages fill in one after the other.
  The record has the keys that the functions modelled here read or write. A key read with
  \<^verbatim>\<open>p.get(key)\<close> or \<^verbatim>\<open>p.get(key, default)\<close> may be absent and is an option
  (\<open>None\<close>: absent, or present with the Python value \<^verbatim>\<open>None\<close>);
  \<open>page_text\<close> is the key \<^verbatim>\<open>"text"\<close>, and
  \<open>new_position\<close> is absent until an ordering function assigns it. The duplicate flags
  are read with the default \<^verbatim>\<open>False\<close>, so an absent flag is \<open>False\<close>.
  For the key \<^verbatim>\<open>"title"\<close>, which \<^verbatim>\<open>process_pdf_complete\<close> sets on every page before
  the pages are ordered, \<open>None\<close> is the Python value \<^verbatim>\<open>None\<close> that
  \<^verbatim>\<open>extract_title\<close> returns for a page without a title line.
  Detected page numbers are Python integers (\<open>int\<close>); confidences, section values and
  similarities are Python floats. A finite float is the rational number it denotes, and a
  comparison of two floats is the comparison of these rationals. Where the source adds or
  divides floats, in \<^verbatim>\<open>optimize_continuity\<close> and in \<^verbatim>\<open>extract_section_number\<close>, the
  result is rounded as the machine rounds it (section on double-precision arithmetic
  below); the coverage and the average gap of the hybrid engine are quotients of two
  integers and are kept exact.
\<close>

datatype error = IndexError | KeyError | ValueError | TypeError | OverflowError | ZeroDivisionError

record page =
  page_index :: nat
  page_text :: string
  title :: "string option"
  page_number_detected :: "(int option \<times> rat) option"
  section_numeric_value :: "rat option"
  position_hint :: "nat option"
  new_position :: "nat option"
  is_exact_duplicate :: bool
  is_near_duplicate :: bool
  duplicate_of :: "nat list"
  duplicate_similarity :: "rat option"

definition BLANK_PAGE :: string where
  "BLANK_PAGE = ''[BLANK PAGE]''"

definition is_blank :: "page \<Rightarrow> bool" where
  \<comment> \<open>\<^verbatim>\<open>p.get("title") == "[BLANK PAGE]"\<close>\<close>
  "is_blank p = (title p = Some BLANK_PAGE)"

definition detected :: "page \<Rightarrow> int option \<times> rat" where
  \<comment> \<open>\<^verbatim>\<open>p.get("page_number_detected", (None, 0.0))\<close>\<close>
  "detected p = (case page_number_detected p of None \<Rightarrow> (None, 0) | Some t \<Rightarrow> t)"

definition has_number :: "page \<Rightarrow> bool" where
  "has_number p = (fst (detected p) \<noteq> None)"

definition page_num :: "page \<Rightarrow> int" where
  \<comment> \<open>\<^verbatim>\<open>p["page_number_detected"][0]\<close>, read only on pages that have a number\<close>
  "page_num p = the (fst (detected p))"

definition assign_positions :: "page list \<Rightarrow> page list" where
  \<comment> \<open>\<^verbatim>\<open>for new_idx, page in enumerate(ordered): page["new_position"] = new_idx\<close>\<close>
  "assign_positions ordered = map (\<lambda>(new_idx, p). p\<lparr>new_position := Some new_idx\<rparr>) (enumerate 0 ordered)"

section \<open>Double-precision arithmetic\<close>

text \<open>
  A Python \<^verbatim>\<open>float\<close> is an IEEE 754 double: a sign, a mantissa of 53 bits and an
  exponent between -1022 and 1023, with the numbers below \<open>2 powi - 1022\<close> on the grid of
  step \<open>2 powi - 1074\<close>. A float literal, a sum of two floats, the quotient of two integers
  and the conversion of an integer to a float are each the double nearest to the exact
  result, a tie going to the even mantissa. \<open>exponent x\<close> is the integer \<open>e\<close> with
  \<open>2 powi e \<le> \<bar>x\<bar> < 2 powi (e + 1)\<close>, and \<open>round_double x\<close> rounds \<open>x\<close> to the grid
  of its binade, without a bound on the exponent from above: the operation overflows exactly
  when the rounded value exceeds \<open>max_double\<close> in magnitude. The literals \<^verbatim>\<open>0.3\<close> and
  \<^verbatim>\<open>0.2\<close> of the source are \<open>round_double (3 / 10)\<close> and \<open>round_double (2 / 10)\<close>.
\<close>

definition round_half_even :: "rat \<Rightarrow> int" where
  "round_half_even x =
     (let n = \<lfloor>x\<rfloor>; r = x - of_int n
      in if r < 1 / 2 then n else if r > 1 / 2 then n + 1 else if even n then n else n + 1)"

definition exponent :: "rat \<Rightarrow> int" where
  "exponent x =
     (let (p, q) = quotient_of \<bar>x\<bar>; b = bitlen p - bitlen q
      in if 2 powi b \<le> \<bar>x\<bar> then b else b - 1)"

definition round_double :: "rat \<Rightarrow> rat" where
  "round_double x =
     (if x = 0 then 0
      else let e = max (exponent x) (- 1022); ulp = 2 powi (e - 52)
           in of_int (round_half_even (x / ulp)) * ulp)"

definition max_double :: rat where
  "max_double = (2 ^ 53 - 1) * 2 ^ 971"

section \<open>Ordering engine (modules/ordering.py)\<close>

subsection \<open>Ordering by page numbers\<close>

definition trusted_number :: "page \<Rightarrow> bool" where
  \<comment> \<open>\<^verbatim>\<open>page_num is not None and confidence > 0.5\<close>\<close>
  "trusted_number p = (fst (detected p) \<noteq> None \<and> snd (detected p) > 1 / 2)"

definition section_sort_key :: "page \<Rightarrow> nat \<times> rat" where
  "section_sort_key p =
     (case section_numeric_value p of
        Some section_val \<Rightarrow> (0, section_val)
      | None \<Rightarrow> (1, of_nat (page_index p)))"

definition order_pages_by_page_numbers :: "page list \<Rightarrow> page list" where
  "order_pages_by_page_numbers pages =
     (let pages_with_numbers = filter trusted_number pages;
          pages_without_numbers = filter (\<lambda>p. \<not> trusted_number p) pages;
          pages_with_numbers = sort_key page_num pages_with_numbers;
          pages_without_numbers = sort_key section_sort_key pages_without_numbers;
          ordered = pages_with_numbers @ pages_without_numbers
      in assign_positions ordered)"

subsection \<open>Continuity refinement\<close>

text \<open>
  \<^verbatim>\<open>compute_similarity\<close> (cosine similarity of two embedding vectors, or the constant 0.0
  when the embedding library is absent) is the parameter \<open>sim\<close>; an embedding is a value
  of the type variable \<open>'e\<close>. The loop body reads the scores computed before the loop and
  the current, possibly swapped, lists. A similarity is a double, the threshold is the
  double written \<^verbatim>\<open>0.3\<close>, and \<^verbatim>\<open>continuity_scores[i] + 0.2\<close> is the rounded sum of
  two doubles; a cosine has magnitude at most 1, so the sum does not overflow.
\<close>

definition swap :: "nat \<Rightarrow> nat \<Rightarrow> 'a list \<Rightarrow> 'a list" where
  \<comment> \<open>\<^verbatim>\<open>xs[i], xs[j] = xs[j], xs[i]\<close> with both indices in range\<close>
  "swap i j xs = xs[i := xs ! j, j := xs ! i]"

definition refine_step ::
  "('e \<Rightarrow> 'e \<Rightarrow> rat) \<Rightarrow> rat list \<Rightarrow> nat \<Rightarrow> page list \<times> 'e list \<Rightarrow> page list \<times> 'e list" where
  "refine_step sim continuity_scores i st =
     (case st of (pages, embeddings) \<Rightarrow>
        if continuity_scores ! i < round_double (3 / 10) \<and> i + 2 < length pages then
          if i + 3 < length pages then
            let alt_sim = sim (embeddings ! i) (embeddings ! (i + 2)) in
            if alt_sim > round_double (continuity_scores ! i + round_double (2 / 10))
            then (swap (i + 1) (i + 2) pages, swap (i + 1) (i + 2) embeddings)
            else (pages, embeddings)
          else (pages, embeddings)
        else (pages, embeddings))"

fun refine_loop ::
  "('e \<Rightarrow> 'e \<Rightarrow> rat) \<Rightarrow> rat list \<Rightarrow> nat list \<Rightarrow> page list \<times> 'e list \<Rightarrow> page list \<times> 'e list" where
  "refine_loop sim continuity_scores [] st = st"
| "refine_loop sim continuity_scores (i # rest) st =
     refine_loop sim continuity_scores rest (refine_step sim continuity_scores i st)"

definition optimize_continuity ::
  "('e \<Rightarrow> 'e \<Rightarrow> rat) \<Rightarrow> page list \<Rightarrow> 'e list \<Rightarrow> page list" where
  "optimize_continuity sim pages embeddings =
     (if length embeddings \<noteq> length pages then pages
      else
        let continuity_scores =
              map (\<lambda>i. sim (embeddings ! i) (embeddings ! (i + 1))) [0..<length embeddings - 1];
            (pages', embeddings') =
              refine_loop sim continuity_scores [0..<length continuity_scores] (pages, embeddings)
        in assign_positions pages')"

subsection \<open>The hybrid engine\<close>

datatype meta_value = MNat nat | MRat rat | MStr string | MStrs "string list"

type_synonym metadata = "(string \<times> meta_value) list"

definition page_number_coverage :: "page list \<Rightarrow> rat" where
  "page_number_coverage content_pages =
     (if content_pages \<noteq> []
      then of_nat (length (filter has_number content_pages)) / of_nat (length content_pages)
      else 0)"

fun gaps_of :: "int list \<Rightarrow> int list" where
  "gaps_of (curr_num # next_num # rest) = \<bar>next_num - curr_num\<bar> # gaps_of (next_num # rest)"
| "gaps_of _ = []"

definition sequential_score :: "page list \<Rightarrow> rat" where
  "sequential_score content_pages =
     (let numbered_pages = sort_key page_num (filter has_number content_pages) in
      if length numbered_pages > 2 then
        let gaps = gaps_of (map page_num numbered_pages);
            avg_gap = of_int (sum_list gaps) / of_nat (length gaps)
        in if avg_gap > (3 / 2 :: rat) then 1 / 2 else 1
      else 1)"

definition use_page_numbers :: "page list \<Rightarrow> bool" where
  "use_page_numbers content_pages =
     (page_number_coverage content_pages \<ge> 7 / 10 \<and> sequential_score content_pages > 7 / 10)"

definition content_sort_key :: "page \<Rightarrow> nat \<times> rat \<times> nat \<times> nat" where
  "content_sort_key p =
     (let section_val = section_numeric_value p;
          position_hint = (case position_hint p of None \<Rightarrow> 500 | Some h \<Rightarrow> h);
          page_idx = page_index p
      in case section_val of
           Some v \<Rightarrow> (0, v, 0, page_idx)
         | None \<Rightarrow> (1, 0, position_hint, page_idx))"

fun gather_embeddings :: "'e list \<Rightarrow> page list \<Rightarrow> error + 'e list" where
  \<comment> \<open>\<^verbatim>\<open>[embeddings[p["page_index"]] for p in ordered]\<close>\<close>
  "gather_embeddings embeddings [] = Inr []"
| "gather_embeddings embeddings (p # ordered) =
     (if page_index p < length embeddings then
        (case gather_embeddings embeddings ordered of
           Inl e \<Rightarrow> Inl e
         | Inr rest \<Rightarrow> Inr (embeddings ! page_index p # rest))
      else Inl IndexError)"

definition ordering_metadata :: "nat \<Rightarrow> page list \<Rightarrow> page list \<Rightarrow> string \<Rightarrow> metadata" where
  \<comment> \<open>the source stores coverage and score rounded to two decimals; the exact values are kept here\<close>
  "ordering_metadata n content_pages blank_pages method =
     [(''total_pages'', MNat n),
      (''content_pages'', MNat (length content_pages)),
      (''blank_pages'', MNat (length blank_pages)),
      (''pages_with_numbers'', MNat (length (filter has_number content_pages))),
      (''page_number_coverage'', MRat (page_number_coverage content_pages)),
      (''sequential_score'', MRat (sequential_score content_pages)),
      (''ordering_method'', MStr method)]"

definition order_pages_hybrid ::
  "('e \<Rightarrow> 'e \<Rightarrow> rat) \<Rightarrow> page list \<Rightarrow> 'e list \<Rightarrow> error + (page list \<times> metadata)" where
  "order_pages_hybrid sim pages embeddings =
     (let n = length pages;
          blank_pages = filter is_blank pages;
          content_pages = filter (\<lambda>p. \<not> is_blank p) pages
      in
      if content_pages = [] then
        Inr (blank_pages, [(''total_pages'', MNat n), (''ordering_method'', MStr ''blank_only'')])
      else if use_page_numbers content_pages then
        Inr (assign_positions (order_pages_by_page_numbers content_pages @ blank_pages),
             ordering_metadata n content_pages blank_pages ''page_numbers_primary'')
      else
        let content_pages_sorted = assign_positions (sort_key content_sort_key content_pages);
            md = ordering_metadata n content_pages blank_pages ''section_numbers_primary''
        in
        if length content_pages > 3 then
          (case gather_embeddings embeddings content_pages_sorted of
             Inl e \<Rightarrow> Inl e
           | Inr content_embeddings_ordered \<Rightarrow>
               Inr (assign_positions
                      (optimize_continuity sim content_pages_sorted content_embeddings_ordered
                         @ blank_pages), md))
        else Inr (assign_positions (content_pages_sorted @ blank_pages), md))"

section \<open>Duplicate detection (modules/duplicates.py)\<close>

text \<open>
  \<^verbatim>\<open>compute_page_hash\<close> normalises the text with \<^verbatim>\<open>text.strip().lower()\<close> and returns
  the SHA-256 digest of the result as a hexadecimal string. The digest function is the
  parameter \<open>sha256\<close>. Page texts are modelled as ASCII strings: \<open>strip\<close> removes the
  ASCII white space characters of Python (codes 9 to 13 and 28 to 32) from both ends and
  \<open>lower\<close> maps the letters A to Z to lower case.

  \<^verbatim>\<open>hash_map\<close> is a Python dictionary, which keeps its keys in the order of their first
  insertion; it is an association list here, and \<open>hash_map_add\<close> is
  \<^verbatim>\<open>if page_hash not in hash_map: hash_map[page_hash] = []\<close> followed by
  \<^verbatim>\<open>hash_map[page_hash].append(idx)\<close>.

  \<^verbatim>\<open>mark_duplicates\<close> updates the pages in place; the model returns the updated list,
  or \<open>IndexError\<close> where the source indexes \<^verbatim>\<open>pages\<close> out of range.
\<close>

definition is_space :: "char \<Rightarrow> bool" where
  "is_space c = (let n = (of_char c :: nat) in (9 \<le> n \<and> n \<le> 13) \<or> (28 \<le> n \<and> n \<le> 32))"

definition strip :: "string \<Rightarrow> string" where
  "strip s = rev (dropWhile is_space (rev (dropWhile is_space s)))"

definition lower_char :: "char \<Rightarrow> char" where
  "lower_char c = (let n = (of_char c :: nat) in if 65 \<le> n \<and> n \<le> 90 then char_of (n + 32) else c)"

definition lower :: "string \<Rightarrow> string" where
  "lower s = map lower_char s"

definition compute_page_hash :: "(string \<Rightarrow> 'h) \<Rightarrow> string \<Rightarrow> 'h" where
  "compute_page_hash sha256 text_content =
     (let normalized = lower (strip text_content) in sha256 normalized)"

fun hash_map_add :: "'h \<Rightarrow> nat \<Rightarrow> ('h \<times> nat list) list \<Rightarrow> ('h \<times> nat list) list" where
  "hash_map_add page_hash idx [] = [(page_hash, [idx])]"
| "hash_map_add page_hash idx ((k, indices) # rest) =
     (if k = page_hash then (k, indices @ [idx]) # rest
      else (k, indices) # hash_map_add page_hash idx rest)"

fun build_hash_map ::
  "(string \<Rightarrow> 'h) \<Rightarrow> (nat \<times> page) list \<Rightarrow> ('h \<times> nat list) list \<Rightarrow> ('h \<times> nat list) list" where
  "build_hash_map sha256 [] hash_map = hash_map"
| "build_hash_map sha256 ((idx, page) # rest) hash_map =
     build_hash_map sha256 rest
       (hash_map_add (compute_page_hash sha256 (page_text page)) idx hash_map)"

definition find_exact_duplicates :: "(string \<Rightarrow> 'h) \<Rightarrow> page list \<Rightarrow> nat list list" where
  "find_exact_duplicates sha256 pages =
     (let hash_map = build_hash_map sha256 (enumerate 0 pages) []
      in filter (\<lambda>indices. length indices > 1) (map snd hash_map))"

definition init_flags :: "page \<Rightarrow> page" where
  "init_flags p = p\<lparr>is_exact_duplicate := False, is_near_duplicate := False, duplicate_of := []\<rparr>"

fun mark_group :: "nat \<Rightarrow> nat list \<Rightarrow> page list \<Rightarrow> error + page list" where
  "mark_group original_idx [] pages = Inr pages"
| "mark_group original_idx (dup_idx # rest) pages =
     (if dup_idx < length pages then
        mark_group original_idx rest
          (pages[dup_idx := (pages ! dup_idx)
                   \<lparr>is_exact_duplicate := True,
                    duplicate_of := duplicate_of (pages ! dup_idx) @ [original_idx]\<rparr>])
      else Inl IndexError)"

fun mark_exact :: "nat list list \<Rightarrow> page list \<Rightarrow> error + page list" where
  "mark_exact [] pages = Inr pages"
| "mark_exact (dup_group # groups) pages =
     (if length dup_group > 1 then
        (case mark_group (hd dup_group) (tl dup_group) pages of
           Inl e \<Rightarrow> Inl e
         | Inr pages' \<Rightarrow> mark_exact groups pages')
      else mark_exact groups pages)"

fun mark_near :: "(nat \<times> nat \<times> rat) list \<Rightarrow> page list \<Rightarrow> error + page list" where
  "mark_near [] pages = Inr pages"
| "mark_near ((idx1, idx2, similarity) # rest) pages =
     (if idx2 < length pages then
        mark_near rest
          (pages[idx2 := (pages ! idx2)
                   \<lparr>is_near_duplicate := True,
                    duplicate_of := duplicate_of (pages ! idx2) @ [idx1],
                    duplicate_similarity := Some similarity\<rparr>])
      else Inl IndexError)"

definition mark_duplicates ::
  "page list \<Rightarrow> nat list list \<Rightarrow> (nat \<times> nat \<times> rat) list \<Rightarrow> error + page list" where
  "mark_duplicates pages exact_duplicates near_duplicates =
     (case mark_exact exact_duplicates (map init_flags pages) of
        Inl e \<Rightarrow> Inl e
      | Inr pages' \<Rightarrow> mark_near near_duplicates pages')"

section \<open>External ordering adapter (modules/llm\_ordering.py) and step 7 of the pipeline\<close>

text \<open>
  \<^verbatim>\<open>order_pages_with_gemini\<close> sends a prompt to the service and parses the reply inside one
  \<^verbatim>\<open>try\<close> block. What the outside world contributes is the parameter of the model:
  whether the library is installed (\<^verbatim>\<open>GEMINI_AVAILABLE\<close>), whether
  \<^verbatim>\<open>configure_gemini\<close> succeeded, and the outcome of the request: \<open>InvalidJson\<close> when
  \<^verbatim>\<open>json.loads\<close> raises \<^verbatim>\<open>JSONDecodeError\<close>, \<open>Raised message\<close> for any other
  exception raised inside the block (a timeout, a reply of the wrong JSON type), which the
  handler \<^verbatim>\<open>except Exception as e\<close> turns into \<^verbatim>\<open>{"error": str(e)}\<close>, and
  \<open>Parsed result\<close> for a reply that parses to a JSON object, with the fields the function
  reads; an absent field is \<open>None\<close>. The two \<^verbatim>\<open>ValueError\<close>s that the validation
  raises are caught by the same handler; \<open>validate_and_reorder\<close> returns what the handler
  returns. Before the request the block builds a summary of every page with
  \<^verbatim>\<open>page.get("title", "").strip()\<close>, which raises \<^verbatim>\<open>AttributeError\<close> on a title
  that is \<^verbatim>\<open>None\<close>; the handler catches it too, and no request is made.
\<close>

record gemini_result =
  correct_order :: "int list option"
  document_type :: "string option"
  confidence :: "rat option"
  reasoning :: "string option"
  detected_sections :: "string list option"

datatype gemini_response = Raised string | InvalidJson | Parsed gemini_result

fun show_nat :: "nat \<Rightarrow> string" where
  "show_nat n =
     (if n < 10 then [char_of (48 + n)]
      else show_nat (n div 10) @ [char_of (48 + n mod 10)])"

declare show_nat.simps [simp del]

definition adapter_error :: "string \<Rightarrow> page list option \<times> metadata" where
  "adapter_error reason = (None, [(''error'', MStr reason)])"

definition gemini_metadata :: "gemini_result \<Rightarrow> page list \<Rightarrow> metadata" where
  "gemini_metadata result pages =
     [(''ordering_method'', MStr ''gemini_ai_structured''),
      (''document_type'', MStr (case document_type result of None \<Rightarrow> ''unknown'' | Some t \<Rightarrow> t)),
      (''confidence'', MRat (case confidence result of None \<Rightarrow> 0 | Some c \<Rightarrow> c)),
      (''reasoning'', MStr (case reasoning result of None \<Rightarrow> [] | Some t \<Rightarrow> t)),
      (''detected_sections'', MStrs (case detected_sections result of None \<Rightarrow> [] | Some l \<Rightarrow> l)),
      (''total_pages'', MNat (length pages)),
      (''total_characters'', MNat (sum_list (map (\<lambda>p. length (page_text p)) pages))),
      (''page_number_coverage'', MRat 0),
      (''content_pages'', MNat (length pages)),
      (''blank_pages'', MNat 0)]"

definition validate_and_reorder :: "gemini_result \<Rightarrow> page list \<Rightarrow> page list option \<times> metadata" where
  "validate_and_reorder result pages =
     (case correct_order result of
        None \<Rightarrow> adapter_error ''Response missing 'correct_order' field''
      | Some order_indices \<Rightarrow>
          if length order_indices \<noteq> length pages then
            adapter_error (''Order has '' @ show_nat (length order_indices)
                           @ '' pages but document has '' @ show_nat (length pages))
          else if set order_indices \<noteq> int ` {0..<length pages} then
            adapter_error ''Invalid page indices in order''
          else
            let reordered_pages = map (\<lambda>idx. pages ! nat idx) order_indices
            in (Some (assign_positions reordered_pages), gemini_metadata result pages))"

definition order_pages_with_gemini ::
  "bool \<Rightarrow> string option \<Rightarrow> bool \<Rightarrow> gemini_response \<Rightarrow> page list \<Rightarrow> page list option \<times> metadata" where
  "order_pages_with_gemini GEMINI_AVAILABLE api_key configure_ok response pages =
     (if \<not> GEMINI_AVAILABLE then adapter_error ''gemini_not_available''
      else if api_key \<noteq> None \<and> api_key \<noteq> Some [] \<and> \<not> configure_ok then
        adapter_error ''configuration_failed''
      else if \<exists>p\<in>set pages. title p = None then
        adapter_error (CHR 0x27 # ''NoneType' object has no attribute 'strip'' @ [CHR 0x27])
      else
        (case response of
           Raised message \<Rightarrow> adapter_error message
         | InvalidJson \<Rightarrow> adapter_error ''invalid_json_response''
         | Parsed result \<Rightarrow> validate_and_reorder result pages))"

text \<open>
  Step 7 of \<^verbatim>\<open>process_pdf_complete\<close>. After the hybrid engine it calls
  \<^verbatim>\<open>generate_ordering_explanation\<close>, of which the exceptions are modelled and the text
  of the explanation is not. The function subscripts the metadata with
  \<^verbatim>\<open>'ordering_method'\<close> and, unless the method is \<^verbatim>\<open>'gemini_ai'\<close>, with
  \<^verbatim>\<open>'total_pages'\<close>. Its loop reads \<^verbatim>\<open>page["new_position"]\<close> of every ordered page
  and so raises \<^verbatim>\<open>KeyError\<close> on a page without a position; it collects the pages
  moved by more than 3 positions, and for the first five of them the explanation takes
  \<^verbatim>\<open>title[:50]\<close>, which raises \<^verbatim>\<open>TypeError\<close> on a title that is \<^verbatim>\<open>None\<close>.
\<close>

definition generate_ordering_explanation :: "page list \<Rightarrow> metadata \<Rightarrow> error + unit" where
  "generate_ordering_explanation pages ordering_md =
     (if map_of ordering_md ''ordering_method'' = None then Inl KeyError
      else if map_of ordering_md ''ordering_method'' \<noteq> Some (MStr ''gemini_ai'')
              \<and> map_of ordering_md ''total_pages'' = None then Inl KeyError
      else if \<exists>p\<in>set pages. new_position p = None then Inl KeyError
      else
        let major_moves =
              filter (\<lambda>p. \<bar>int (the (new_position p)) - int (page_index p)\<bar> > 3) pages
        in if \<exists>p\<in>set (take 5 major_moves). title p = None then Inl TypeError
           else Inr ())"

definition with_explanation :: "error + (page list \<times> metadata) \<Rightarrow> error + (page list \<times> metadata)" where
  "with_explanation r =
     (case r of
        Inl e \<Rightarrow> Inl e
      | Inr (ordered_pages, ordering_md) \<Rightarrow>
          (case generate_ordering_explanation ordered_pages ordering_md of
             Inl e \<Rightarrow> Inl e
           | Inr u \<Rightarrow> Inr (ordered_pages, ordering_md)))"

definition reorder_pages ::
  "bool \<Rightarrow> bool \<Rightarrow> string option \<Rightarrow> bool \<Rightarrow> gemini_response \<Rightarrow> ('e \<Rightarrow> 'e \<Rightarrow> rat)
     \<Rightarrow> page list \<Rightarrow> 'e list \<Rightarrow> error + (page list \<times> metadata)" where
  "reorder_pages use_gemini GEMINI_AVAILABLE gemini_api_key configure_ok response sim pages
     embeddings =
     (if use_gemini \<and> GEMINI_AVAILABLE \<and> gemini_api_key \<noteq> None \<and> gemini_api_key \<noteq> Some [] then
        let gemini_result =
              order_pages_with_gemini GEMINI_AVAILABLE gemini_api_key configure_ok response pages
        in (case fst gemini_result of
              Some ordered_pages \<Rightarrow> Inr (ordered_pages, snd gemini_result)
            | None \<Rightarrow> with_explanation (order_pages_hybrid sim pages embeddings))
      else with_explanation (order_pages_hybrid sim pages embeddings))"

section \<open>Section numbers (modules/headings.py)\<close>

text \<open>
  \<^verbatim>\<open>compare_section_numbers\<close> parses both arguments with
  \<^verbatim>\<open>[int(x) for x in num.split('.')]\<close>; \<open>py_int\<close> is Python's \<^verbatim>\<open>int\<close> on ASCII text
  (surrounding white space, an optional sign, digits with single underscores between them)
  and raises \<open>ValueError\<close> otherwise. An argument that is \<^verbatim>\<open>None\<close> or empty is
  falsy and sorts after every section number. The loop over
  \<^verbatim>\<open>range(min(len(parts1), len(parts2)))\<close> followed by the comparison of the lengths is
  the recursion \<open>compare_parts\<close>.

  \<open>extract_section_number_numeric\<close> is \<^verbatim>\<open>extract_section_number\<close> up to and including
  its second pattern, the two numeric-hierarchy patterns
  \<^verbatim>\<open>^(\d+(?:\.\d+){0,3})\s+[A-Z]\<close> and \<^verbatim>\<open>^(\d+(?:\.\d+){0,3})[A-Z]\<close>; the result
  \<open>Inr None\<close> stands for the case that neither matches, where the source goes on to its
  other pattern families. \<open>match_number\<close> is the greedy match of
  \<^verbatim>\<open>\d+(?:\.\d+){0,3}\<close> at the start of the title (matched text and rest): giving back a
  digit or a whole group leaves a digit or a dot in front of the rest, which neither
  \<^verbatim>\<open>\s\<close> nor \<^verbatim>\<open>[A-Z]\<close> matches, so backtracking finds no other match. Titles are
  ASCII strings.

  The numeric value is a Python number (\<open>number\<close>): the integer \<^verbatim>\<open>parts[0]\<close> when
  there is no sub-level, and a float from the first sub-level on. \<open>add_levels\<close> is the
  loop \<^verbatim>\<open>for i, part in enumerate(parts[1:], 1): numeric_val += part / (1000 ** i)\<close>.
  The quotient of the two integers is the double nearest to the exact quotient
  (\<open>true_divide\<close>, which raises \<^verbatim>\<open>OverflowError\<close> when that double would not be
  finite); the sum converts an integer \<^verbatim>\<open>numeric_val\<close> to a float (\<open>int_to_float\<close>,
  with the same \<^verbatim>\<open>OverflowError\<close>) and adds two floats as the machine does
  (\<open>float_sum\<close>): the double nearest to the exact sum, or an infinity.
\<close>

definition is_digit :: "char \<Rightarrow> bool" where
  "is_digit c = (let n = (of_char c :: nat) in 48 \<le> n \<and> n \<le> 57)"

definition is_upper :: "char \<Rightarrow> bool" where
  "is_upper c = (let n = (of_char c :: nat) in 65 \<le> n \<and> n \<le> 90)"

fun split_on :: "char \<Rightarrow> string \<Rightarrow> string list" where
  "split_on sep [] = [[]]"
| "split_on sep (c # cs) =
     (if c = sep then [] # split_on sep cs
      else (case split_on sep cs of
              [] \<Rightarrow> [[c]]
            | w # ws \<Rightarrow> (c # w) # ws))"

definition digits_value :: "string \<Rightarrow> int" where
  "digits_value ds = foldl (\<lambda>acc c. 10 * acc + (int (of_char c) - 48)) 0 ds"

definition valid_int_body :: "string \<Rightarrow> bool" where
  "valid_int_body ds =
     (ds \<noteq> [] \<and> is_digit (hd ds) \<and> is_digit (last ds)
      \<and> (\<forall>c\<in>set ds. is_digit c \<or> c = CHR ''_'')
      \<and> (\<forall>i<length ds - 1. \<not> (ds ! i = CHR ''_'' \<and> ds ! Suc i = CHR ''_'')))"

definition py_int :: "string \<Rightarrow> error + int" where
  "py_int x =
     (let t = strip x;
          (sign, body) = (case t of
                            c # r \<Rightarrow> if c = CHR ''-'' then (- 1, r)
                                     else if c = CHR ''+'' then (1, r) else (1, t)
                          | [] \<Rightarrow> (1, t))
      in if valid_int_body body
         then Inr (sign * digits_value (filter (\<lambda>c. c \<noteq> CHR ''_'') body))
         else Inl ValueError)"

fun map_int :: "string list \<Rightarrow> error + int list" where
  "map_int [] = Inr []"
| "map_int (x # xs) =
     (case py_int x of
        Inl e \<Rightarrow> Inl e
      | Inr v \<Rightarrow> (case map_int xs of Inl e \<Rightarrow> Inl e | Inr vs \<Rightarrow> Inr (v # vs)))"

definition section_parts :: "string \<Rightarrow> error + int list" where
  "section_parts num = map_int (split_on CHR ''.'' num)"

fun compare_parts :: "int list \<Rightarrow> int list \<Rightarrow> int" where
  "compare_parts (p1 # parts1) (p2 # parts2) =
     (if p1 < p2 then - 1 else if p1 > p2 then 1 else compare_parts parts1 parts2)"
| "compare_parts [] [] = 0"
| "compare_parts [] (p2 # parts2) = - 1"
| "compare_parts (p1 # parts1) [] = 1"

definition falsy :: "string option \<Rightarrow> bool" where
  "falsy s = (s = None \<or> s = Some [])"

definition compare_section_numbers :: "string option \<Rightarrow> string option \<Rightarrow> error + int" where
  "compare_section_numbers num1 num2 =
     (if falsy num1 \<and> falsy num2 then Inr 0
      else if falsy num1 then Inr 1
      else if falsy num2 then Inr (- 1)
      else
        (case section_parts (the num1) of
           Inl e \<Rightarrow> Inl e
         | Inr parts1 \<Rightarrow>
             (case section_parts (the num2) of
                Inl e \<Rightarrow> Inl e
              | Inr parts2 \<Rightarrow> Inr (compare_parts parts1 parts2))))"

fun match_groups :: "nat \<Rightarrow> string \<Rightarrow> string \<times> string" where
  "match_groups 0 s = ([], s)"
| "match_groups (Suc k) s =
     (case s of
        [] \<Rightarrow> ([], s)
      | c # r \<Rightarrow>
          if c = CHR ''.'' \<and> takeWhile is_digit r \<noteq> [] then
            (let (m, rest) = match_groups k (dropWhile is_digit r)
             in (c # takeWhile is_digit r @ m, rest))
          else ([], s))"

definition match_number :: "string \<Rightarrow> (string \<times> string) option" where
  "match_number s =
     (let d = takeWhile is_digit s in
      if d = [] then None
      else let (m, rest) = match_groups 3 (dropWhile is_digit s) in Some (d @ m, rest))"

datatype number = PyInt int | PyFloat rat | PyInf | PyNegInf

definition int_to_float :: "int \<Rightarrow> error + rat" where
  "int_to_float n =
     (let x = round_double (of_int n)
      in if \<bar>x\<bar> > max_double then Inl OverflowError else Inr x)"

definition true_divide :: "int \<Rightarrow> int \<Rightarrow> error + rat" where
  "true_divide a b =
     (if b = 0 then Inl ZeroDivisionError
      else let x = round_double (of_int a / of_int b)
           in if \<bar>x\<bar> > max_double then Inl OverflowError else Inr x)"

definition float_sum :: "rat \<Rightarrow> rat \<Rightarrow> number" where
  "float_sum x y =
     (let s = round_double (x + y)
      in if s > max_double then PyInf else if s < - max_double then PyNegInf else PyFloat s)"

definition add_float :: "number \<Rightarrow> rat \<Rightarrow> error + number" where
  \<comment> \<open>\<^verbatim>\<open>numeric_val + q\<close> for a finite float \<open>q\<close>\<close>
  "add_float numeric_val q =
     (case numeric_val of
        PyInt n \<Rightarrow> (case int_to_float n of Inl e \<Rightarrow> Inl e | Inr x \<Rightarrow> Inr (float_sum x q))
      | PyFloat x \<Rightarrow> Inr (float_sum x q)
      | PyInf \<Rightarrow> Inr PyInf
      | PyNegInf \<Rightarrow> Inr PyNegInf)"

fun add_levels :: "nat \<Rightarrow> int list \<Rightarrow> number \<Rightarrow> error + number" where
  "add_levels i [] numeric_val = Inr numeric_val"
| "add_levels i (part # rest) numeric_val =
     (case true_divide part (1000 ^ i) of
        Inl e \<Rightarrow> Inl e
      | Inr q \<Rightarrow>
          (case add_float numeric_val q of
             Inl e \<Rightarrow> Inl e
           | Inr v \<Rightarrow> add_levels (Suc i) rest v))"

definition hierarchy_value :: "string \<Rightarrow> error + number" where
  "hierarchy_value section_num =
     (case section_parts section_num of
        Inl e \<Rightarrow> Inl e
      | Inr parts \<Rightarrow>
          (case parts of
             [] \<Rightarrow> Inl IndexError
           | p0 # rest \<Rightarrow> add_levels 1 rest (PyInt p0)))"

definition space_then_capital :: "string \<Rightarrow> bool" where
  "space_then_capital rest =
     (rest \<noteq> [] \<and> is_space (hd rest)
      \<and> (case dropWhile is_space rest of [] \<Rightarrow> False | c # r \<Rightarrow> is_upper c))"

definition capital_next :: "string \<Rightarrow> bool" where
  "capital_next rest = (case rest of [] \<Rightarrow> False | c # r \<Rightarrow> is_upper c)"

definition numbered_result :: "string \<Rightarrow> error + (string \<times> number) option" where
  "numbered_result section_num =
     (case hierarchy_value section_num of
        Inl e \<Rightarrow> Inl e
      | Inr numeric_val \<Rightarrow> Inr (Some (section_num, numeric_val)))"

definition extract_section_number_numeric :: "string option \<Rightarrow> error + (string \<times> number) option" where
  "extract_section_number_numeric ttl =
     (if falsy ttl \<or> ttl = Some BLANK_PAGE then Inr None
      else
        let title_clean = strip (the ttl) in
        (case match_number title_clean of
           None \<Rightarrow> Inr None
         | Some (section_num, rest) \<Rightarrow>
             if space_then_capital rest then numbered_result section_num
             else if capital_next rest then numbered_result section_num
             else Inr None))"

section \<open>Auxiliary definitions for stating the properties\<close>

text \<open>
  None of the definitions of this section is part of the program: they are the notions the
  properties are stated with, and the concrete pages the properties are evaluated on.
\<close>

definition forget_position :: "page \<Rightarrow> page" where
  \<comment> \<open>a page record without its assigned position: what identifies the page\<close>
  "forget_position p = p\<lparr>new_position := None\<rparr>"

definition make_page ::
  "nat \<Rightarrow> string option \<Rightarrow> int option \<times> rat \<Rightarrow> rat option \<Rightarrow> nat \<Rightarrow> page" where
  \<comment> \<open>a page as steps 1 to 3 of \<^verbatim>\<open>process_pdf_complete\<close> leave it, before ordering\<close>
  "make_page idx ttl num secv hint =
     \<lparr>page_index = idx, page_text = [], title = ttl, page_number_detected = Some num,
      section_numeric_value = secv, position_hint = Some hint, new_position = None,
      is_exact_duplicate = False, is_near_duplicate = False, duplicate_of = [],
      duplicate_similarity = None\<rparr>"

definition no_similarity :: "nat \<Rightarrow> nat \<Rightarrow> rat" where
  \<comment> \<open>\<^verbatim>\<open>compute_similarity\<close> when the embedding library is absent\<close>
  "no_similarity embedding1 embedding2 = 0"

definition blank_page_0 :: page where
  "blank_page_0 = make_page 0 (Some BLANK_PAGE) (None, 0) None 9999"

definition body_page_1 :: page where
  "body_page_1 = make_page 1 (Some ''Body'') (Some 100, 1) None 500"

definition intro_page_0 :: page where
  "intro_page_0 = make_page 0 (Some ''Intro'') (Some 1, 1) None 100"

text \<open>
  A sequence of swaps of neighbours: \<open>apply_swaps ks xs\<close> exchanges, for each \<open>k\<close> of
  \<open>ks\<close> in turn, the elements at positions \<open>k\<close> and \<open>k + 1\<close>.
\<close>

fun apply_swaps :: "nat list \<Rightarrow> 'a list \<Rightarrow> 'a list" where
  "apply_swaps [] xs = xs"
| "apply_swaps (k # ks) xs = apply_swaps ks (swap k (Suc k) xs)"

text \<open>
  The continuity refinement in the words of the specification: one pass from left to
  right; at each position whose pair of neighbours has a similarity below 0.3, the next two
  pages are swapped when the swap raises the similarity by more than 0.2.
\<close>

definition claimed_step ::
  "('e \<Rightarrow> 'e \<Rightarrow> rat) \<Rightarrow> nat \<Rightarrow> page list \<times> 'e list \<Rightarrow> page list \<times> 'e list" where
  "claimed_step sim i st =
     (case st of (pages, embeddings) \<Rightarrow>
        if sim (embeddings ! i) (embeddings ! (i + 1)) < 3 / 10 \<and> i + 2 < length pages
           \<and> sim (embeddings ! i) (embeddings ! (i + 2))
                > sim (embeddings ! i) (embeddings ! (i + 1)) + 2 / 10
        then (swap (i + 1) (i + 2) pages, swap (i + 1) (i + 2) embeddings)
        else (pages, embeddings))"

definition claimed_refinement :: "('e \<Rightarrow> 'e \<Rightarrow> rat) \<Rightarrow> page list \<Rightarrow> 'e list \<Rightarrow> page list" where
  "claimed_refinement sim pages embeddings =
     fst (fold (claimed_step sim) [0..<length pages - 1] (pages, embeddings))"

text \<open>
  The refinement as amended: the similarities of neighbours are those computed before the
  pass (\<open>scores0\<close>), a swap of positions \<open>i + 1\<close> and \<open>i + 2\<close> needs a further
  page behind them (\<open>i + 3 < n\<close>), the threshold is the double 0.3, and the similarity
  after the swap is compared with the double-precision sum of the similarity before it and
  the double 0.2.
\<close>

definition amended_step ::
  "('e \<Rightarrow> 'e \<Rightarrow> rat) \<Rightarrow> rat list \<Rightarrow> nat \<Rightarrow> 'a list \<times> 'e list \<Rightarrow> 'a list \<times> 'e list" where
  "amended_step sim scores0 i st =
     (case st of (pages, embeddings) \<Rightarrow>
        if scores0 ! i < round_double (3 / 10) \<and> i + 3 < length pages
           \<and> sim (embeddings ! i) (embeddings ! (i + 2))
                > round_double (scores0 ! i + round_double (2 / 10))
        then (swap (i + 1) (i + 2) pages, swap (i + 1) (i + 2) embeddings)
        else (pages, embeddings))"

definition amended_refinement :: "('e \<Rightarrow> 'e \<Rightarrow> rat) \<Rightarrow> 'a list \<Rightarrow> 'e list \<Rightarrow> 'a list" where
  "amended_refinement sim pages embeddings =
     (let scores0 = map (\<lambda>i. sim (embeddings ! i) (embeddings ! Suc i)) [0..<length pages - 1]
      in fst (fold (amended_step sim scores0) [0..<length pages - 1] (pages, embeddings)))"

definition unit_similarity :: "nat \<Rightarrow> nat \<Rightarrow> rat" where
  \<comment> \<open>cosine similarity of the unit vectors of an orthonormal basis, named by their index\<close>
  "unit_similarity a b = (if a = b then 1 else 0)"

definition pair_similarity :: "rat \<Rightarrow> rat \<Rightarrow> nat \<Rightarrow> nat \<Rightarrow> rat" where
  \<comment> \<open>similarity \<open>s\<close> between embeddings 0 and 1, \<open>t\<close> between 0 and 2, and 1 otherwise\<close>
  "pair_similarity s t a b =
     (if (a = 0 \<and> b = 1) \<or> (a = 1 \<and> b = 0) then s
      else if (a = 0 \<and> b = 2) \<or> (a = 2 \<and> b = 0) then t
      else 1)"

definition plain_page :: "nat \<Rightarrow> page" where
  "plain_page idx = make_page idx (Some ''Text'') (None, 0) None 500"

definition four_pages :: "page list" where
  "four_pages = [plain_page 0, plain_page 1, plain_page 2, plain_page 3]"

definition six_pages :: "page list" where
  "six_pages = [plain_page 0, plain_page 1, plain_page 2, plain_page 3, plain_page 4, plain_page 5]"

definition five_pages :: "page list" where
  "five_pages = [plain_page 0, plain_page 1, plain_page 2, plain_page 3, plain_page 4]"

text \<open>
  The three blocks of the number-order path: pages whose number is trusted (0), the other
  content pages (1), blank pages (2).
\<close>

definition order_group :: "page \<Rightarrow> nat" where
  "order_group p = (if is_blank p then 2 else if trusted_number p then 0 else 1)"

definition standalone_page_0 :: page where
  "standalone_page_0 = make_page 0 (Some ''First'') (Some 1, 1 / 2) None 500"

definition second_page_1 :: page where
  "second_page_1 = make_page 1 (Some ''Second'') (Some 2, 1) None 500"

text \<open>
  For duplicate detection: the hash of page \<open>i\<close>, the indices of the pages with the hash
  of page \<open>i\<close>, the invariant of the loop that builds \<^verbatim>\<open>hash_map\<close>, and the targets
  that the exact-duplicate groups record for page \<open>i\<close>.
\<close>

definition page_key :: "(string \<Rightarrow> 'h) \<Rightarrow> page list \<Rightarrow> nat \<Rightarrow> 'h" where
  "page_key sha256 pages i = compute_page_hash sha256 (page_text (pages ! i))"

definition same_hash :: "(string \<Rightarrow> 'h) \<Rightarrow> page list \<Rightarrow> nat \<Rightarrow> nat list" where
  "same_hash sha256 pages i =
     filter (\<lambda>j. page_key sha256 pages j = page_key sha256 pages i) [0..<length pages]"

definition hash_map_upto :: "(nat \<Rightarrow> 'h) \<Rightarrow> nat \<Rightarrow> ('h \<times> nat list) list \<Rightarrow> bool" where
  "hash_map_upto K m hm =
     (distinct (map fst hm)
      \<and> (\<forall>k. map_of hm k = (if \<exists>j<m. K j = k then Some (filter (\<lambda>j. K j = k) [0..<m]) else None)))"

definition exact_targets :: "nat list list \<Rightarrow> nat \<Rightarrow> nat list" where
  "exact_targets groups i =
     concat (map (\<lambda>g. if length g > 1 then replicate (count_list (tl g) i) (hd g) else []) groups)"

definition text_page :: "nat \<Rightarrow> string \<Rightarrow> page" where
  "text_page idx txt = (make_page idx None (None, 0) None 500)\<lparr>page_text := txt\<rparr>"

definition abac_pages :: "page list" where
  "abac_pages = [text_page 0 ''  Alpha page '', text_page 1 ''Beta'',
                 text_page 2 ''alpha PAGE'', text_page 3 ''Gamma'']"

definition untitled_page_0 :: page where
  "untitled_page_0 = make_page 0 None (None, 0) None 500"

definition introduction_page :: "nat \<Rightarrow> page" where
  "introduction_page idx = make_page idx (Some ''Introduction'') (None, 0) None 100"

definition untitled_first :: "page list" where
  "untitled_first =
     [untitled_page_0, introduction_page 1, introduction_page 2, introduction_page 3,
      introduction_page 4]"

definition repeated_index_result :: gemini_result where
  "repeated_index_result =
     \<lparr>correct_order = Some [1, 1], document_type = Some ''report'', confidence = Some (9 / 10),
      reasoning = Some ''by headings'', detected_sections = Some []\<rparr>"

text \<open>
  For section numbers: the fractional part that the sub-levels contribute to the encoding
  in exact arithmetic, the condition that every sub-level part lies between 1 and 999, the
  strict order that \<^verbatim>\<open>compare_section_numbers\<close> induces, the order and the equality of
  Python numbers (an integer and a float compare by their values, the infinities lie at the
  two ends), and the float that the loop of \<open>add_levels\<close> computes from a float when
  nothing overflows.
\<close>

fun frac :: "int list \<Rightarrow> rat" where
  "frac [] = 0"
| "frac (x # xs) = (of_int x + frac xs) / 1000"

definition sub_levels_ok :: "int list \<Rightarrow> bool" where
  "sub_levels_ok parts = (\<forall>p\<in>set (tl parts). 1 \<le> p \<and> p \<le> 999)"

definition section_less :: "string \<Rightarrow> string \<Rightarrow> bool" where
  "section_less n1 n2 = (compare_section_numbers (Some n1) (Some n2) = Inr (- 1))"

definition number_key :: "number \<Rightarrow> int \<times> rat" where
  "number_key v =
     (case v of
        PyInt n \<Rightarrow> (0, of_int n)
      | PyFloat x \<Rightarrow> (0, x)
      | PyInf \<Rightarrow> (1, 0)
      | PyNegInf \<Rightarrow> (- 1, 0))"

definition number_less :: "number \<Rightarrow> number \<Rightarrow> bool" where
  "number_less v1 v2 = (number_key v1 < number_key v2)"

definition number_equal :: "number \<Rightarrow> number \<Rightarrow> bool" where
  "number_equal v1 v2 = (number_key v1 = number_key v2)"

fun double_levels :: "nat \<Rightarrow> int list \<Rightarrow> rat \<Rightarrow> rat" where
  "double_levels i [] c = c"
| "double_levels i (part # rest) c =
     double_levels (Suc i) rest (round_double (c + round_double (of_int part / 1000 ^ i)))"

section \<open>Properties of double-precision arithmetic\<close>

text \<open>
  \<open>exponent\<close> is the binary exponent, rounding moves a number by at most half a step of
  the grid, and the doubles that the examples below meet have these values.
\<close>

lemma round_half_even_error: "\<bar>of_int (round_half_even y) - y\<bar> \<le> 1 / 2"
proof -
  have "of_int \<lfloor>y\<rfloor> \<le> y" "y < of_int \<lfloor>y\<rfloor> + 1" by linarith+
  then show ?thesis
    by (auto simp: round_half_even_def Let_def)
qed

lemma quotient_of_abs_pos:
  assumes "x \<noteq> 0" "quotient_of \<bar>x\<bar> = (p, q)"
  shows "0 < p" "0 < q" "\<bar>x\<bar> = of_int p / of_int q"
proof -
  from assms(2) show q: "0 < q" by (rule quotient_of_denom_pos)
  from assms(2) show e: "\<bar>x\<bar> = of_int p / of_int q" by (rule quotient_of_div)
  from assms(1) have "0 < \<bar>x\<bar>" by simp
  with e q show "0 < p" by (simp add: zero_less_divide_iff)
qed

lemma bitlen_powi_bounds:
  assumes "0 < p"
  shows "(2::rat) powi (bitlen p - 1) \<le> of_int p" "of_int p < (2::rat) powi (bitlen p)"
proof -
  from assms have b: "1 \<le> bitlen p" by (auto simp: bitlen_alt_def)
  from bitlen_bounds [OF assms] have l: "2 ^ nat (bitlen p - 1) \<le> p" and u: "p < 2 ^ nat (bitlen p)"
    by simp_all
  from l have "(of_int (2 ^ nat (bitlen p - 1)) :: rat) \<le> of_int p" by (simp only: of_int_le_iff)
  then have "(2::rat) ^ nat (bitlen p - 1) \<le> of_int p" by simp
  with b show "(2::rat) powi (bitlen p - 1) \<le> of_int p" by (simp add: power_int_def)
  from u have "(of_int p :: rat) < of_int (2 ^ nat (bitlen p))" by (simp only: of_int_less_iff)
  then have "(of_int p :: rat) < 2 ^ nat (bitlen p)" by simp
  with b show "of_int p < (2::rat) powi (bitlen p)" by (simp add: power_int_def)
qed

lemma exponent_bounds:
  assumes "x \<noteq> 0"
  shows "2 powi (exponent x) \<le> \<bar>x\<bar>" "\<bar>x\<bar> < 2 powi (exponent x + 1)"
proof -
  obtain p q where pq: "quotient_of \<bar>x\<bar> = (p, q)" by (cases "quotient_of \<bar>x\<bar>")
  note f = quotient_of_abs_pos [OF assms pq]
  let ?b = "bitlen p - bitlen q"
  note bp = bitlen_powi_bounds [OF f(1)]
  note bq = bitlen_powi_bounds [OF f(2)]
  have q0: "(0::rat) < of_int q" using f(2) by simp
  have lo: "(2::rat) powi (?b - 1) \<le> \<bar>x\<bar>"
  proof -
    have e1: "?b - 1 = (bitlen p - 1) - bitlen q" by simp
    have "(2::rat) powi (?b - 1) = 2 powi (bitlen p - 1) / 2 powi (bitlen q)"
      unfolding e1 by (rule power_int_diff) simp
    also have "\<dots> \<le> of_int p / 2 powi (bitlen q)"
      using bp(1) by (simp add: divide_right_mono)
    also have "\<dots> \<le> of_int p / of_int q"
      using bq(2) q0 f(1) by (simp add: frac_le)
    finally show ?thesis by (simp add: f(3))
  qed
  have hi: "\<bar>x\<bar> < (2::rat) powi (?b + 1)"
  proof -
    have "\<bar>x\<bar> = of_int p / of_int q" by (rule f(3))
    also have "\<dots> < 2 powi (bitlen p) / of_int q"
      using bp(2) q0 by (simp add: divide_strict_right_mono)
    also have "\<dots> \<le> 2 powi (bitlen p) / 2 powi (bitlen q - 1)"
      using bq(1) by (simp add: frac_le)
    also have "\<dots> = 2 powi (bitlen p - (bitlen q - 1))"
      by (rule power_int_diff [symmetric]) simp
    also have "bitlen p - (bitlen q - 1) = ?b + 1" by simp
    finally show ?thesis .
  qed
  show "2 powi (exponent x) \<le> \<bar>x\<bar>"
    using lo by (simp add: exponent_def pq Let_def)
  show "\<bar>x\<bar> < 2 powi (exponent x + 1)"
    using hi by (auto simp: exponent_def pq Let_def not_le)
qed

lemma exponent_less:
  assumes "x \<noteq> 0" "\<bar>x\<bar> < 2 powi k"
  shows "exponent x < k"
proof (rule ccontr)
  assume "\<not> exponent x < k"
  then have "k \<le> exponent x" by simp
  then have "(2::rat) powi k \<le> 2 powi (exponent x)" by (simp add: power_int_increasing)
  with exponent_bounds(1) [OF assms(1)] assms(2) show False by simp
qed

lemma round_double_error:
  assumes "\<bar>x\<bar> < 2 powi k" "- 1021 \<le> k"
  shows "\<bar>round_double x - x\<bar> \<le> 2 powi (k - 54)"
proof (cases "x = 0")
  case True
  then show ?thesis by (simp add: round_double_def)
next
  case False
  define e where "e = max (exponent x) (- 1022)"
  define ulp :: rat where "ulp = 2 powi (e - 52)"
  have u: "0 < ulp" by (simp add: ulp_def)
  from exponent_less [OF False assms(1)] assms(2) have "e \<le> k - 1" by (simp add: e_def)
  then have "ulp \<le> 2 powi (k - 53)" by (simp add: ulp_def power_int_increasing)
  moreover have "(2::rat) powi (k - 53) = 2 * 2 powi (k - 54)"
    using power_int_add_1' [of "2::rat" "k - 54"] by (simp add: algebra_simps)
  ultimately have h: "ulp / 2 \<le> 2 powi (k - 54)" by simp
  have r: "round_double x = of_int (round_half_even (x / ulp)) * ulp"
    using False by (simp add: round_double_def e_def ulp_def Let_def)
  have "round_double x - x = (of_int (round_half_even (x / ulp)) - x / ulp) * ulp"
    using u by (simp add: r algebra_simps)
  then have "\<bar>round_double x - x\<bar> = \<bar>of_int (round_half_even (x / ulp)) - x / ulp\<bar> * ulp"
    using u by (simp add: abs_mult)
  also have "\<dots> \<le> 1 / 2 * ulp"
    using round_half_even_error [of "x / ulp"] u by (simp add: mult_right_mono)
  finally show ?thesis using h by simp
qed

lemma double_constants:
  "round_double (3 / 10) = 5404319552844595 / 18014398509481984"
  "round_double (1 / 5) = 3602879701896397 / 18014398509481984"
  "round_double (1 / 10) = 3602879701896397 / 36028797018963968"
  "round_double (3602879701896397 / 18014398509481984) = 3602879701896397 / 18014398509481984"
  "round_double (21617278211378381 / 18014398509481984) = 5404319552844595 / 4503599627370496"
  "round_double (10808639105689191 / 36028797018963968) = 1351079888211149 / 4503599627370496"
  "round_double (1 / 2) = 1 / 2"
  by code_simp+

section \<open>Properties of missing-page detection\<close>

lemma missing_between_concat:
  "missing_between ns = concat (map (\<lambda>i. [ns ! i + 1..ns ! Suc i - 1]) [0..<length ns - 1])"
proof (induction ns rule: missing_between.induct)
  case (1 current next_num rest)
  have "[0..<length (current # next_num # rest) - 1] = 0 # map Suc [0..<length (next_num # rest) - 1]"
    by (simp add: upt_conv_Cons map_Suc_upt del: upt_Suc)
  then show ?case using 1 by (simp add: comp_def del: upt_Suc)
qed simp_all

lemma map_insort_key: "map f (insort_key f x xs) = insort (f x) (map f xs)"
  by (induction xs) simp_all

lemma map_sort_key: "map f (sort_key f xs) = sort (map f xs)"
  by (induction xs) (simp_all add: map_insort_key)

text \<open>
  Claim C6. \<^verbatim>\<open>detect_missing_pages\<close> sorts the supplied pairs by detected number and
  reports, in ascending order, every integer strictly between each two neighbouring
  numbers (nothing for a gap of at most 1); with fewer than two pairs it reports nothing;
  numbers 1,2,3,5,6 give [4] and numbers 1,2,4,7 give [3,5,6].
\<close>

theorem detect_missing_pages_spec:
  "detect_missing_pages ps =
     (let ns = sort (map snd ps)
      in concat (map (\<lambda>i. [ns ! i + 1..ns ! Suc i - 1]) [0..<length ns - 1]))
   \<and> (length ps < 2 \<longrightarrow> detect_missing_pages ps = [])
   \<and> detect_missing_pages [(0, 1), (1, 2), (2, 3), (3, 5), (4, 6)] = [4]
   \<and> detect_missing_pages [(0, 1), (1, 2), (2, 4), (3, 7)] = [3, 5, 6]"
proof -
  have a: "detect_missing_pages ps =
     (let ns = sort (map snd ps)
      in concat (map (\<lambda>i. [ns ! i + 1..ns ! Suc i - 1]) [0..<length ns - 1]))"
  proof (cases "length ps < 2")
    case True
    then have "length (sort (map snd ps)) - 1 = 0" by simp
    then show ?thesis using True by (simp add: detect_missing_pages_def Let_def)
  next
    case False
    then show ?thesis
      by (simp add: detect_missing_pages_def Let_def map_sort_key missing_between_concat
               del: upt_Suc)
  qed
  have b: "length ps < 2 \<longrightarrow> detect_missing_pages ps = []"
    by (simp add: detect_missing_pages_def)
  have c: "detect_missing_pages [(0, 1), (1, 2), (2, 3), (3, 5), (4, 6)] = [4]"
    by (simp add: detect_missing_pages_def upto.simps)
  have d: "detect_missing_pages [(0, 1), (1, 2), (2, 4), (3, 7)] = [3, 5, 6]"
    by (simp add: detect_missing_pages_def upto.simps)
  from a b c d show ?thesis by blast
qed

theorem detect_missing_pages_spec_witness:
  "length [(0::nat, 7::int)] < 2 \<and> detect_missing_pages [(0, 7)] = []"
  using detect_missing_pages_spec [of "[(0, 7)]"] by simp

section \<open>Properties of the ordering engine\<close>

subsection \<open>Position assignment\<close>

lemma length_assign_positions [simp]: "length (assign_positions xs) = length xs"
  by (simp add: assign_positions_def)

lemma nth_assign_positions:
  "i < length xs \<Longrightarrow> assign_positions xs ! i = (xs ! i)\<lparr>new_position := Some i\<rparr>"
  by (simp add: assign_positions_def nth_enumerate_eq)

lemma map_assign_positions:
  assumes "\<And>p v. f (p\<lparr>new_position := v\<rparr>) = f p"
  shows "map f (assign_positions xs) = map f xs"
  by (rule nth_equalityI) (simp_all add: nth_assign_positions assms)

lemma filter_assign_positions:
  assumes "\<And>p v. P (p\<lparr>new_position := v\<rparr>) = P p"
  shows "map forget_position (filter P (assign_positions xs)) = map forget_position (filter P xs)"
proof -
  have "map forget_position (filter P (assign_positions xs))
        = filter P (map forget_position (assign_positions xs))"
    by (simp add: filter_map comp_def forget_position_def assms)
  also have "map forget_position (assign_positions xs) = map forget_position xs"
    by (rule map_assign_positions) (simp add: forget_position_def)
  also have "filter P (map forget_position xs) = map forget_position (filter P xs)"
    by (simp add: filter_map comp_def forget_position_def assms)
  finally show ?thesis .
qed

lemma positions_assign_positions:
  "map new_position (assign_positions xs) = map Some [0..<length xs]"
  by (rule nth_equalityI) (simp_all add: nth_assign_positions)

lemma forget_assign_positions [simp]:
  "map forget_position (assign_positions xs) = map forget_position xs"
  by (rule map_assign_positions) (simp add: forget_position_def)

lemma assign_positions_idem [simp]:
  "assign_positions (assign_positions xs @ ys) = assign_positions (xs @ ys)"
  by (rule nth_equalityI) (simp_all add: nth_assign_positions nth_append)

lemma refine_step_length:
  "refine_step sim cs i (ps, es) = (ps', es') \<Longrightarrow> length ps' = length ps \<and> length es' = length es"
  by (auto simp: refine_step_def swap_def Let_def split: if_splits)

lemma refine_step_mset:
  "refine_step sim cs i (ps, es) = (ps', es') \<Longrightarrow> mset ps' = mset ps"
  by (auto simp: refine_step_def swap_def Let_def mset_swap split: if_splits)

lemma refine_loop_mset:
  "refine_loop sim cs is (ps, es) = (ps', es') \<Longrightarrow> mset ps' = mset ps \<and> length ps' = length ps"
proof (induction "is" arbitrary: ps es)
  case Nil
  then show ?case by simp
next
  case (Cons i rest)
  obtain ps1 es1 where s: "refine_step sim cs i (ps, es) = (ps1, es1)" by fastforce
  with Cons.prems have "refine_loop sim cs rest (ps1, es1) = (ps', es')" by simp
  from Cons.IH [OF this] refine_step_mset [OF s] refine_step_length [OF s]
  show ?case by simp
qed

lemma optimize_continuity_forget:
  "mset (map forget_position (optimize_continuity sim ps es)) = mset (map forget_position ps)"
proof (cases "length es = length ps")
  case False
  then show ?thesis by (simp add: optimize_continuity_def)
next
  case True
  let ?cs = "map (\<lambda>i. sim (es ! i) (es ! (i + 1))) [0..<length es - 1]"
  obtain ps' es' where r: "refine_loop sim ?cs [0..<length ?cs] (ps, es) = (ps', es')"
    by fastforce
  from refine_loop_mset [OF r] have "mset ps' = mset ps" by simp
  then have "mset (map forget_position ps') = mset (map forget_position ps)"
    by (metis mset_map)
  moreover have "optimize_continuity sim ps es = assign_positions ps'"
    using True r by (simp add: optimize_continuity_def Let_def)
  ultimately show ?thesis by simp
qed

lemma optimize_continuity_length [simp]:
  "length (optimize_continuity sim ps es) = length ps"
  using optimize_continuity_forget [of sim ps es] 
  by (metis length_map size_mset)

lemma gather_embeddings_total:
  "\<forall>p\<in>set ps. page_index p < length es \<Longrightarrow>
     \<exists>r. gather_embeddings es ps = Inr r \<and> length r = length ps"
  by (induction ps) auto

lemma gather_embeddings_length:
  "gather_embeddings es ps = Inr r \<Longrightarrow> length r = length ps"
  by (induction ps arbitrary: r) (auto split: if_splits sum.splits)

lemma order_by_numbers_forget:
  "mset (map forget_position (order_pages_by_page_numbers ps)) = mset (map forget_position ps)"
proof -
  have "mset (sort_key page_num (filter trusted_number ps)
              @ sort_key section_sort_key (filter (\<lambda>p. \<not> trusted_number p) ps)) = mset ps"
    by simp
  then have "mset (map forget_position (sort_key page_num (filter trusted_number ps)
              @ sort_key section_sort_key (filter (\<lambda>p. \<not> trusted_number p) ps)))
             = mset (map forget_position ps)"
    by (metis mset_map)
  then show ?thesis
    by (simp add: order_pages_by_page_numbers_def Let_def del: map_append)
qed

lemma hybrid_blank_only:
  "filter (\<lambda>p. \<not> is_blank p) pages = [] \<Longrightarrow>
   order_pages_hybrid sim pages embs =
     Inr (filter is_blank pages,
          [(''total_pages'', MNat (length pages)), (''ordering_method'', MStr ''blank_only'')])"
  by (simp add: order_pages_hybrid_def Let_def)

lemma hybrid_shape:
  assumes c: "filter (\<lambda>p. \<not> is_blank p) pages \<noteq> []"
      and r: "order_pages_hybrid sim pages embs = Inr (out, md)"
  shows "\<exists>ordered. out = assign_positions (ordered @ filter is_blank pages)
           \<and> mset (map forget_position ordered)
               = mset (map forget_position (filter (\<lambda>p. \<not> is_blank p) pages))"
proof -
  let ?c = "filter (\<lambda>p. \<not> is_blank p) pages"
  let ?b = "filter is_blank pages"
  let ?s = "assign_positions (sort_key content_sort_key ?c)"
  have s: "mset (map forget_position ?s) = mset (map forget_position ?c)"
    by simp
  show ?thesis
  proof (cases "use_page_numbers ?c")
    case True
    with c r have "out = assign_positions (order_pages_by_page_numbers ?c @ ?b)"
      by (simp add: order_pages_hybrid_def Let_def)
    then show ?thesis using order_by_numbers_forget by blast
  next
    case False
    show ?thesis
    proof (cases "length ?c > 3")
      case True
      with c r False obtain es where
        "out = assign_positions (optimize_continuity sim ?s es @ ?b)"
        by (auto simp: order_pages_hybrid_def Let_def split: sum.splits)
      moreover have "mset (map forget_position (optimize_continuity sim ?s es))
                     = mset (map forget_position ?c)"
        using optimize_continuity_forget [of sim ?s es] s by simp
      ultimately show ?thesis by blast
    next
      case le: False
      with c r False have "out = assign_positions (?s @ ?b)"
        by (simp add: order_pages_hybrid_def Let_def)
      then show ?thesis using s by blast
    qed
  qed
qed

lemma hybrid_total:
  assumes "\<forall>p\<in>set pages. page_index p < length embs"
  shows "\<exists>out md. order_pages_hybrid sim pages embs = Inr (out, md)"
proof -
  let ?c = "filter (\<lambda>p. \<not> is_blank p) pages"
  let ?s = "assign_positions (sort_key content_sort_key ?c)"
  have "map page_index ?s = map page_index (sort_key content_sort_key ?c)"
    by (rule map_assign_positions) simp
  then have "set (map page_index ?s) = set (map page_index (sort_key content_sort_key ?c))"
    by simp
  then have "page_index ` set ?s \<subseteq> page_index ` set pages"
    by auto
  with assms have "\<forall>p\<in>set ?s. page_index p < length embs"
    by auto
  from gather_embeddings_total [OF this] obtain es where "gather_embeddings embs ?s = Inr es"
    by blast
  then show ?thesis
    by (simp add: order_pages_hybrid_def Let_def)
qed

lemma is_blank_update [simp]: "is_blank (p\<lparr>new_position := v\<rparr>) = is_blank p"
  by (simp add: is_blank_def)

lemma is_blank_forget [simp]: "is_blank (forget_position p) = is_blank p"
  by (simp add: forget_position_def)

lemma hybrid_metadata:
  assumes c: "filter (\<lambda>p. \<not> is_blank p) pages \<noteq> []"
      and r: "order_pages_hybrid sim pages embs = Inr (out, md)"
  shows "md = ordering_metadata (length pages) (filter (\<lambda>p. \<not> is_blank p) pages)
                (filter is_blank pages)
                (if use_page_numbers (filter (\<lambda>p. \<not> is_blank p) pages)
                 then ''page_numbers_primary'' else ''section_numbers_primary'')"
  using c r by (auto simp: order_pages_hybrid_def Let_def split: if_splits sum.splits)

lemmas engine_defs =
  order_pages_hybrid_def make_page_def is_blank_def BLANK_PAGE_def use_page_numbers_def
  page_number_coverage_def sequential_score_def has_number_def detected_def
  order_pages_by_page_numbers_def trusted_number_def assign_positions_def section_sort_key_def
  page_num_def enumerate_eq_zip content_sort_key_def ordering_metadata_def Let_def

lemma hybrid_positions:
  assumes "\<exists>p\<in>set pages. \<not> is_blank p"
      and "order_pages_hybrid sim pages embeddings = Inr (out, md)"
  shows "map new_position out = map Some [0..<length pages]"
proof -
  from assms(1) have c: "filter (\<lambda>p. \<not> is_blank p) pages \<noteq> []" by (simp add: filter_empty_conv)
  from hybrid_shape [OF c assms(2)] obtain ordered where
    out: "out = assign_positions (ordered @ filter is_blank pages)" and
    m: "mset (map forget_position ordered) = mset (map forget_position (filter (\<lambda>p. \<not> is_blank p) pages))"
    by blast
  from m have "length ordered = length (filter (\<lambda>p. \<not> is_blank p) pages)"
    by (metis length_map size_mset)
  then have "length (ordered @ filter is_blank pages) = length pages"
    using sum_length_filter_compl [of "\<lambda>p. \<not> is_blank p" pages] by simp
  with out show ?thesis by (simp add: positions_assign_positions del: length_append)
qed

text \<open>
  Claim C1. For every N-page document the engine assigns positions 0 to N-1, each once,
  also when every page is blank. With at least one content page this holds
  (\<open>hybrid_positions\<close>). A document of blank pages only takes the early return of
  \<^verbatim>\<open>order_pages_hybrid\<close>, which hands back the blank pages before any position has been
  assigned: the one-page document below comes back with no position at all.
\<close>

theorem hybrid_all_blank_no_positions:
  "order_pages_hybrid no_similarity [blank_page_0] [0] =
     Inr ([blank_page_0], [(''total_pages'', MNat 1), (''ordering_method'', MStr ''blank_only'')])
   \<and> is_blank blank_page_0
   \<and> map new_position [blank_page_0] = [None]
   \<and> map new_position [blank_page_0] \<noteq> map Some [0..<1]"
  by (simp add: blank_page_0_def engine_defs)

text \<open>
  Claim C2. When at least one page is not blank, the final order has all blank pages in one
  block at its end: the page at position \<open>i\<close> is blank exactly when \<open>i\<close> is at least the
  number of content pages. The engine returns a result whenever every page index is a valid
  index into the embeddings.
\<close>

theorem blank_pages_tail:
  assumes "\<exists>p\<in>set pages. \<not> is_blank p"
  shows "((\<forall>p\<in>set pages. page_index p < length embeddings) \<longrightarrow>
            (\<exists>out md. order_pages_hybrid sim pages embeddings = Inr (out, md)))
         \<and> (order_pages_hybrid sim pages embeddings = Inr (out, md) \<longrightarrow>
              length out = length pages
              \<and> (\<forall>i<length out.
                    is_blank (out ! i) = (length (filter (\<lambda>p. \<not> is_blank p) pages) \<le> i)))"
proof (intro conjI impI)
  assume "\<forall>p\<in>set pages. page_index p < length embeddings"
  then show "\<exists>out md. order_pages_hybrid sim pages embeddings = Inr (out, md)"
    by (rule hybrid_total)
next
  let ?c = "filter (\<lambda>p. \<not> is_blank p) pages"
  let ?b = "filter is_blank pages"
  assume r: "order_pages_hybrid sim pages embeddings = Inr (out, md)"
  from assms have c: "?c \<noteq> []" by (simp add: filter_empty_conv)
  from hybrid_shape [OF c r] obtain ordered where
    out: "out = assign_positions (ordered @ ?b)" and
    m: "mset (map forget_position ordered) = mset (map forget_position ?c)"
    by blast
  from m have len: "length ordered = length ?c"
    by (metis length_map size_mset)
  have "length ?c + length ?b = length pages"
    using sum_length_filter_compl [of "\<lambda>p. \<not> is_blank p" pages] by simp
  with out len show "length out = length pages" by simp
  have nb: "\<forall>p\<in>set ordered. \<not> is_blank p"
  proof
    fix p assume "p \<in> set ordered"
    then have "forget_position p \<in># mset (map forget_position ordered)" by simp
    with m have "forget_position p \<in> set (map forget_position ?c)" by (metis set_mset_mset)
    then obtain q where "q \<in> set ?c" "forget_position p = forget_position q" by auto
    then have "is_blank (forget_position p) = is_blank q" "\<not> is_blank q" by simp_all
    then show "\<not> is_blank p" by simp
  qed
  show "\<forall>i<length out. is_blank (out ! i) = (length ?c \<le> i)"
  proof (intro allI impI)
    fix i assume i: "i < length out"
    then have i': "i < length (ordered @ ?b)" using out by simp
    have "is_blank (out ! i) = is_blank ((ordered @ ?b) ! i)"
      using out i' by (simp add: nth_assign_positions del: length_append)
    also have "\<dots> = (length ?c \<le> i)"
    proof (cases "i < length ordered")
      case True
      then show ?thesis using nb len by (simp add: nth_append)
    next
      case False
      with i' have "i - length ordered < length ?b" by simp
      then have "(?b ! (i - length ordered)) \<in> set ?b" by (rule nth_mem)
      then have "is_blank (?b ! (i - length ordered))" by simp
      with False show ?thesis using len by (simp add: nth_append)
    qed
    finally show "is_blank (out ! i) = (length ?c \<le> i)" .
  qed
qed

theorem blank_pages_tail_witness:
  "order_pages_hybrid no_similarity [blank_page_0, body_page_1] [0, 1] =
     Inr ([body_page_1\<lparr>new_position := Some 0\<rparr>, blank_page_0\<lparr>new_position := Some 1\<rparr>],
          ordering_metadata 2 [body_page_1] [blank_page_0] ''page_numbers_primary'')
   \<and> \<not> is_blank (body_page_1\<lparr>new_position := Some 0\<rparr>)
   \<and> is_blank (blank_page_0\<lparr>new_position := Some 1\<rparr>)"
proof -
  let ?out = "[body_page_1\<lparr>new_position := Some 0\<rparr>, blank_page_0\<lparr>new_position := Some 1\<rparr>]"
  let ?md = "ordering_metadata 2 [body_page_1] [blank_page_0] ''page_numbers_primary''"
  have h: "\<exists>p\<in>set [blank_page_0, body_page_1]. \<not> is_blank p"
    by (simp add: blank_page_0_def body_page_1_def make_page_def is_blank_def BLANK_PAGE_def)
  have r: "order_pages_hybrid no_similarity [blank_page_0, body_page_1] [0, 1] = Inr (?out, ?md)"
    by (simp add: blank_page_0_def body_page_1_def engine_defs)
  have n: "length (filter (\<lambda>p. \<not> is_blank p) [blank_page_0, body_page_1]) = 1"
    by (simp add: blank_page_0_def body_page_1_def make_page_def is_blank_def BLANK_PAGE_def)
  from blank_pages_tail [OF h, of "[0, 1]" no_similarity ?out ?md] r n
  have a: "\<forall>i<length ?out. is_blank (?out ! i) = (1 \<le> i)" by simp
  have "is_blank (?out ! 0) = (1 \<le> (0::nat))"
    using a [rule_format, of 0] by simp
  moreover have "is_blank (?out ! 1) = (1 \<le> (1::nat))"
    using a [rule_format, of 1] by simp
  ultimately show ?thesis using r by simp
qed

text \<open>
  Claim C10. When fewer than three content pages carry a detected page number, the
  sequential score is 1 whatever the gaps between those numbers are, so page-number ordering
  is selected exactly when the coverage is at least 0.7.
\<close>

theorem sequential_score_few_numbers:
  assumes "length (filter has_number (filter (\<lambda>p. \<not> is_blank p) pages)) < 3"
  shows "sequential_score (filter (\<lambda>p. \<not> is_blank p) pages) = 1
         \<and> use_page_numbers (filter (\<lambda>p. \<not> is_blank p) pages)
             = (page_number_coverage (filter (\<lambda>p. \<not> is_blank p) pages) \<ge> 7 / 10)
         \<and> (filter (\<lambda>p. \<not> is_blank p) pages \<noteq> []
              \<and> order_pages_hybrid sim pages embeddings = Inr (out, md) \<longrightarrow>
              map_of md ''sequential_score'' = Some (MRat 1)
              \<and> (map_of md ''ordering_method'' = Some (MStr ''page_numbers_primary''))
                  = (page_number_coverage (filter (\<lambda>p. \<not> is_blank p) pages) \<ge> 7 / 10))"
proof -
  let ?c = "filter (\<lambda>p. \<not> is_blank p) pages"
  from assms have s: "sequential_score ?c = 1"
    by (simp add: sequential_score_def Let_def)
  then have u: "use_page_numbers ?c = (page_number_coverage ?c \<ge> 7 / 10)"
    by (simp add: use_page_numbers_def)
  have "map_of md ''sequential_score'' = Some (MRat 1)
        \<and> (map_of md ''ordering_method'' = Some (MStr ''page_numbers_primary''))
            = (page_number_coverage ?c \<ge> 7 / 10)"
    if "?c \<noteq> []" "order_pages_hybrid sim pages embeddings = Inr (out, md)"
    using hybrid_metadata [OF that] s u by (simp add: ordering_metadata_def)
  with s u show ?thesis by blast
qed

theorem sequential_score_few_numbers_witness:
  "length (filter has_number (filter (\<lambda>p. \<not> is_blank p) [intro_page_0, body_page_1])) < 3
   \<and> sequential_score (filter (\<lambda>p. \<not> is_blank p) [intro_page_0, body_page_1]) = 1
   \<and> use_page_numbers (filter (\<lambda>p. \<not> is_blank p) [intro_page_0, body_page_1])
   \<and> map_of (ordering_metadata 2 [intro_page_0, body_page_1] [] ''page_numbers_primary'')
        ''ordering_method'' = Some (MStr ''page_numbers_primary'')"
proof -
  let ?ps = "[intro_page_0, body_page_1]"
  let ?out = "[intro_page_0\<lparr>new_position := Some 0\<rparr>, body_page_1\<lparr>new_position := Some 1\<rparr>]"
  let ?md = "ordering_metadata 2 [intro_page_0, body_page_1] [] ''page_numbers_primary''"
  have h: "length (filter has_number (filter (\<lambda>p. \<not> is_blank p) ?ps)) < 3"
    by simp
  have c: "filter (\<lambda>p. \<not> is_blank p) ?ps \<noteq> []"
    by (simp add: intro_page_0_def body_page_1_def make_page_def is_blank_def BLANK_PAGE_def)
  have r: "order_pages_hybrid no_similarity ?ps [0, 1] = Inr (?out, ?md)"
    by (simp add: intro_page_0_def body_page_1_def engine_defs)
  have v: "page_number_coverage (filter (\<lambda>p. \<not> is_blank p) ?ps) \<ge> 7 / 10"
    by (simp add: intro_page_0_def body_page_1_def make_page_def is_blank_def BLANK_PAGE_def
                  page_number_coverage_def has_number_def detected_def)
  from sequential_score_few_numbers [OF h, of no_similarity "[0, 1]" ?out ?md] c r v h
  show ?thesis by simp
qed

subsection \<open>Continuity refinement\<close>

lemma refine_step_amended: "refine_step sim cs i st = amended_step sim cs i st"
  by (cases st) (auto simp: refine_step_def amended_step_def Let_def)

lemma refine_loop_fold: "refine_loop sim cs is st = fold (refine_step sim cs) is st"
  by (induction "is" arbitrary: st) simp_all

lemma optimize_continuity_amended:
  assumes "length embeddings = length pages"
  shows "optimize_continuity sim pages embeddings
         = assign_positions (amended_refinement sim pages embeddings)"
proof -
  have "refine_step sim cs = amended_step sim cs" for cs
    by (rule ext)+ (simp add: refine_step_amended)
  then show ?thesis using assms
    by (simp add: optimize_continuity_def amended_refinement_def Let_def refine_loop_fold
                  split_beta)
qed

lemma swap_length [simp]: "length (swap i j xs) = length xs"
  by (simp add: swap_def)

lemma swap_map: "i < length xs \<Longrightarrow> j < length xs \<Longrightarrow> swap i j (map f xs) = map f (swap i j xs)"
  by (simp add: swap_def map_update)

lemma amended_step_length:
  "length (fst (amended_step sim cs i st)) = length (fst st)"
  by (cases st) (simp add: amended_step_def)

lemma amended_step_map:
  "amended_step sim cs i (map f ps, es)
   = (map f (fst (amended_step sim cs i (ps, es))), snd (amended_step sim cs i (ps, es)))"
  by (simp add: amended_step_def swap_map)

lemma amended_fold_map:
  "fold (amended_step sim cs) is (map f ps, es)
   = (map f (fst (fold (amended_step sim cs) is (ps, es))),
      snd (fold (amended_step sim cs) is (ps, es)))"
proof (induction "is" arbitrary: ps es)
  case Nil
  then show ?case by simp
next
  case (Cons i rest)
  obtain ps1 es1 where s: "amended_step sim cs i (ps, es) = (ps1, es1)" by fastforce
  have "amended_step sim cs i (map f ps, es) = (map f ps1, es1)"
    using amended_step_map [of sim cs i f ps es] s by simp
  then show ?case using Cons.IH [of ps1 es1] s by simp
qed

lemma amended_refinement_map:
  "amended_refinement sim (map f ps) es = map f (amended_refinement sim ps es)"
  by (simp add: amended_refinement_def Let_def amended_fold_map)

lemma apply_swaps_append: "apply_swaps (ks @ [k]) xs = swap k (Suc k) (apply_swaps ks xs)"
  by (induction ks arbitrary: xs) simp_all

lemma apply_swaps_length [simp]: "length (apply_swaps ks xs) = length xs"
  by (induction ks arbitrary: xs) simp_all

lemma amended_fold_swaps:
  "\<exists>ks. (\<forall>k\<in>set ks. Suc k < length ps)
        \<and> fst (fold (amended_step sim cs) is (ps, es)) = apply_swaps ks ps"
proof (induction "is" rule: rev_induct)
  case Nil
  have "(\<forall>k\<in>set []. Suc k < length ps) \<and> fst (fold (amended_step sim cs) [] (ps, es)) = apply_swaps [] ps"
    by simp
  then show ?case by blast
next
  case (snoc i rest)
  then obtain ks where ks: "\<forall>k\<in>set ks. Suc k < length ps"
    and eq: "fst (fold (amended_step sim cs) rest (ps, es)) = apply_swaps ks ps"
    by blast
  obtain ps1 es1 where r: "fold (amended_step sim cs) rest (ps, es) = (ps1, es1)" by fastforce
  with eq have ps1: "ps1 = apply_swaps ks ps" by simp
  show ?case
  proof (cases "cs ! i < round_double (3 / 10) \<and> i + 3 < length ps1
                 \<and> sim (es1 ! i) (es1 ! (i + 2)) > round_double (cs ! i + round_double (2 / 10))")
    case True
    then have "fst (fold (amended_step sim cs) (rest @ [i]) (ps, es)) = swap (i + 1) (i + 2) ps1"
      using r by (simp add: amended_step_def)
    also have "\<dots> = apply_swaps (ks @ [i + 1]) ps"
      by (simp add: apply_swaps_append ps1)
    finally have "fst (fold (amended_step sim cs) (rest @ [i]) (ps, es)) = apply_swaps (ks @ [i + 1]) ps" .
    moreover have "\<forall>k\<in>set (ks @ [i + 1]). Suc k < length ps"
      using ks True ps1 by auto
    ultimately show ?thesis by blast
  next
    case False
    then have "fst (fold (amended_step sim cs) (rest @ [i]) (ps, es)) = ps1"
      using r by (auto simp: amended_step_def)
    with ps1 ks show ?thesis by blast
  qed
qed

lemma swap_mset: "i < length xs \<Longrightarrow> j < length xs \<Longrightarrow> mset (swap i j xs) = mset xs"
  by (simp add: swap_def mset_swap)

lemma apply_swaps_mset: "\<forall>k\<in>set ks. Suc k < length xs \<Longrightarrow> mset (apply_swaps ks xs) = mset xs"
  by (induction ks arbitrary: xs) (simp_all add: swap_mset)

lemmas refine_defs =
  optimize_continuity_def refine_step_def swap_def unit_similarity_def claimed_refinement_def
  claimed_step_def amended_refinement_def amended_step_def plain_page_def four_pages_def
  five_pages_def six_pages_def double_constants

lemma assign_positions_cong:
  assumes "map forget_position xs = map forget_position ys"
  shows "assign_positions xs = assign_positions ys"
proof (rule nth_equalityI)
  from assms have l: "length xs = length ys" by (rule map_eq_imp_length_eq)
  then show "length (assign_positions xs) = length (assign_positions ys)" by simp
  fix i assume "i < length (assign_positions xs)"
  then have i: "i < length xs" by simp
  with assms l have "forget_position (xs ! i) = forget_position (ys ! i)"
    by (metis nth_map)
  then have "(forget_position (xs ! i))\<lparr>new_position := Some i\<rparr>
             = (forget_position (ys ! i))\<lparr>new_position := Some i\<rparr>" by simp
  then have "(xs ! i)\<lparr>new_position := Some i\<rparr> = (ys ! i)\<lparr>new_position := Some i\<rparr>"
    by (simp add: forget_position_def)
  with i l show "assign_positions xs ! i = assign_positions ys ! i"
    by (simp add: nth_assign_positions)
qed

lemma gather_embeddings_cong:
  "map page_index xs = map page_index ys \<Longrightarrow> gather_embeddings es xs = gather_embeddings es ys"
proof (induction xs arbitrary: ys)
  case Nil
  then show ?case by simp
next
  case (Cons x xs)
  then obtain y ys' where ys: "ys = y # ys'" by (cases ys) auto
  with Cons.prems have "page_index x = page_index y" "map page_index xs = map page_index ys'"
    by simp_all
  with Cons.IH [of ys'] ys show ?case by (simp split: sum.splits)
qed

lemma gather_assign_positions [simp]:
  "gather_embeddings es (assign_positions xs) = gather_embeddings es xs"
  by (rule gather_embeddings_cong) (rule map_assign_positions, simp)

lemma amended_assign_positions:
  "assign_positions (amended_refinement sim (assign_positions s) es @ b)
   = assign_positions (amended_refinement sim s es @ b)"
proof -
  let ?h = "\<lambda>(i, p). p\<lparr>new_position := Some i\<rparr>"
  let ?X = "amended_refinement sim (enumerate 0 s) es"
  have 1: "amended_refinement sim (assign_positions s) es = map ?h ?X"
    by (simp add: assign_positions_def amended_refinement_map)
  have "amended_refinement sim (map snd (enumerate 0 s)) es = map snd ?X"
    by (rule amended_refinement_map)
  then have 2: "amended_refinement sim s es = map snd ?X" by simp
  have "map forget_position (map ?h ?X @ b) = map forget_position (map snd ?X @ b)"
    by (simp add: forget_position_def split_beta)
  then show ?thesis unfolding 1 2 by (rule assign_positions_cong)
qed

text \<open>
  Claim C9. \<^verbatim>\<open>optimize_continuity\<close> returns its \<open>pages\<close> argument unchanged when the two
  lists differ in length. When they have the same length, the result is the input after a
  sequence of swaps of neighbouring elements, hence a permutation of it, with the positions
  assigned afresh: apart from \<open>new_position\<close>, the page records returned are exactly the
  page records received.
\<close>

theorem optimize_continuity_permutation:
  "(length embeddings \<noteq> length pages \<longrightarrow> optimize_continuity sim pages embeddings = pages)
   \<and> (length embeddings = length pages \<longrightarrow>
        (\<exists>ks. (\<forall>k\<in>set ks. Suc k < length pages)
             \<and> optimize_continuity sim pages embeddings
                 = assign_positions (apply_swaps ks pages)
             \<and> mset (apply_swaps ks pages) = mset pages))
   \<and> mset (map forget_position (optimize_continuity sim pages embeddings))
       = mset (map forget_position pages)"
proof (intro conjI impI)
  assume "length embeddings \<noteq> length pages"
  then show "optimize_continuity sim pages embeddings = pages"
    by (simp add: optimize_continuity_def)
next
  assume l: "length embeddings = length pages"
  let ?cs = "map (\<lambda>i. sim (embeddings ! i) (embeddings ! Suc i)) [0..<length pages - 1]"
  from amended_fold_swaps [of pages sim ?cs "[0..<length pages - 1]" embeddings]
  obtain ks where ks: "\<forall>k\<in>set ks. Suc k < length pages"
    and eq: "amended_refinement sim pages embeddings = apply_swaps ks pages"
    by (auto simp: amended_refinement_def Let_def)
  from optimize_continuity_amended [OF l] eq
  have "optimize_continuity sim pages embeddings = assign_positions (apply_swaps ks pages)"
    by simp
  with ks apply_swaps_mset [OF ks]
  show "\<exists>ks. (\<forall>k\<in>set ks. Suc k < length pages)
             \<and> optimize_continuity sim pages embeddings
                 = assign_positions (apply_swaps ks pages)
             \<and> mset (apply_swaps ks pages) = mset pages"
    by blast
next
  show "mset (map forget_position (optimize_continuity sim pages embeddings))
       = mset (map forget_position pages)"
    by (rule optimize_continuity_forget)
qed

theorem optimize_continuity_permutation_witness:
  "length [0::nat, 1] \<noteq> length four_pages
   \<and> optimize_continuity unit_similarity four_pages [0, 1] = four_pages
   \<and> length [0::nat, 1, 0, 0, 0] = length five_pages
   \<and> (\<exists>ks. optimize_continuity unit_similarity five_pages [0, 1, 0, 0, 0]
              = assign_positions (apply_swaps ks five_pages))
   \<and> map page_index (optimize_continuity unit_similarity five_pages [0, 1, 0, 0, 0])
       = [0, 2, 3, 1, 4]"
proof -
  have h1: "length [0::nat, 1] \<noteq> length four_pages"
    by (simp add: four_pages_def)
  have h2: "length [0::nat, 1, 0, 0, 0] = length five_pages"
    by (simp add: five_pages_def)
  have e: "map page_index (optimize_continuity unit_similarity five_pages [0, 1, 0, 0, 0])
       = [0, 2, 3, 1, 4]"
    by (simp add: engine_defs refine_defs)
  from optimize_continuity_permutation [of "[0, 1]" four_pages unit_similarity] h1
  have a: "optimize_continuity unit_similarity four_pages [0, 1] = four_pages" by blast
  from optimize_continuity_permutation [of "[0, 1, 0, 0, 0]" five_pages unit_similarity] h2
  have b: "\<exists>ks. optimize_continuity unit_similarity five_pages [0, 1, 0, 0, 0]
              = assign_positions (apply_swaps ks five_pages)" by blast
  from h1 h2 e a b show ?thesis by blast
qed

text \<open>
  Claim C8. As stated, the pass would swap pages 2 and 3 of the four content pages below
  (embeddings \<open>[0, 0, 1, 0]\<close>): the pair at positions 1 and 2 has similarity 0, and page 1
  followed by page 3 has similarity 1. The code leaves the order as it is, on the
  structure-order path with four content pages, because a swap at position \<open>i\<close> is guarded
  by \<open>i + 3 < n\<close>. On the six pages with embeddings \<open>[0, 1, 0, 1, 1, 2]\<close> the first step
  swaps pages 1 and 2; at position 2 the pair of neighbours is then pages 1 and 3, of
  similarity 1, but the code tests the similarity 0 that positions 2 and 3 had before the
  pass and swaps pages 3 and 4. The thresholds are doubles: on five pages whose first two
  have the double 0.3 as similarity, which is below 0.3, and on five pages where the
  similarities before and after the swap are the doubles 0.1 and 0.30000000000000004, more
  than 0.2 apart, the pass as stated swaps pages 1 and 2 and the code does not.
\<close>

theorem continuity_refinement_counterexample:
  "order_pages_hybrid unit_similarity four_pages [0, 0, 1, 0]
     = Inr (assign_positions four_pages,
            ordering_metadata 4 four_pages [] ''section_numbers_primary'')
   \<and> map page_index (assign_positions four_pages) = [0, 1, 2, 3]
   \<and> map page_index (optimize_continuity unit_similarity four_pages [0, 0, 1, 0]) = [0, 1, 2, 3]
   \<and> unit_similarity ([0, 0, 1, 0] ! 1) ([0, 0, 1, 0] ! 2) < 3 / 10
   \<and> unit_similarity ([0, 0, 1, 0] ! 1) ([0, 0, 1, 0] ! 3)
       > unit_similarity ([0, 0, 1, 0] ! 1) ([0, 0, 1, 0] ! 2) + 2 / 10
   \<and> map page_index (claimed_refinement unit_similarity four_pages [0, 0, 1, 0]) = [0, 1, 3, 2]
   \<and> map page_index (optimize_continuity unit_similarity six_pages [0, 1, 0, 1, 1, 2])
       = [0, 2, 1, 4, 3, 5]
   \<and> map page_index (claimed_refinement unit_similarity six_pages [0, 1, 0, 1, 1, 2])
       = [0, 2, 1, 3, 4, 5]
   \<and> round_double (3 / 10) < 3 / 10
   \<and> map page_index
         (optimize_continuity (pair_similarity (round_double (3 / 10)) 1) five_pages
            [0, 1, 2, 3, 4]) = [0, 1, 2, 3, 4]
   \<and> map page_index
         (claimed_refinement (pair_similarity (round_double (3 / 10)) 1) five_pages
            [0, 1, 2, 3, 4]) = [0, 2, 1, 3, 4]
   \<and> round_double (round_double (1 / 10) + round_double (2 / 10))
       > round_double (1 / 10) + 2 / 10
   \<and> map page_index
         (optimize_continuity
            (pair_similarity (round_double (1 / 10))
               (round_double (round_double (1 / 10) + round_double (2 / 10))))
            five_pages [0, 1, 2, 3, 4]) = [0, 1, 2, 3, 4]
   \<and> map page_index
         (claimed_refinement
            (pair_similarity (round_double (1 / 10))
               (round_double (round_double (1 / 10) + round_double (2 / 10))))
            five_pages [0, 1, 2, 3, 4]) = [0, 2, 1, 3, 4]"
proof -
  have a: "order_pages_hybrid unit_similarity four_pages [0, 0, 1, 0]
     = Inr (assign_positions four_pages,
            ordering_metadata 4 four_pages [] ''section_numbers_primary'')"
    by (simp add: engine_defs refine_defs)
  have b: "map page_index (assign_positions four_pages) = [0, 1, 2, 3]"
    by (simp add: engine_defs refine_defs)
  have c: "map page_index (optimize_continuity unit_similarity four_pages [0, 0, 1, 0])
           = [0, 1, 2, 3]"
    by (simp add: engine_defs refine_defs)
  have d: "unit_similarity ([0, 0, 1, 0] ! 1) ([0, 0, 1, 0] ! 2) < 3 / 10
           \<and> unit_similarity ([0, 0, 1, 0] ! 1) ([0, 0, 1, 0] ! 3)
               > unit_similarity ([0, 0, 1, 0] ! 1) ([0, 0, 1, 0] ! 2) + 2 / 10"
    by (simp add: unit_similarity_def)
  have e: "map page_index (claimed_refinement unit_similarity four_pages [0, 0, 1, 0])
           = [0, 1, 3, 2]"
    by (simp add: engine_defs refine_defs)
  have f: "map page_index (optimize_continuity unit_similarity six_pages [0, 1, 0, 1, 1, 2])
           = [0, 2, 1, 4, 3, 5]"
    by (simp add: engine_defs refine_defs)
  have g: "map page_index (claimed_refinement unit_similarity six_pages [0, 1, 0, 1, 1, 2])
           = [0, 2, 1, 3, 4, 5]"
    by (simp add: engine_defs refine_defs)
  have h: "round_double (3 / 10) < 3 / 10"
    by (simp add: double_constants)
  have i: "map page_index
             (optimize_continuity (pair_similarity (round_double (3 / 10)) 1) five_pages
                [0, 1, 2, 3, 4]) = [0, 1, 2, 3, 4]"
    by (simp add: engine_defs refine_defs pair_similarity_def)
  have j: "map page_index
             (claimed_refinement (pair_similarity (round_double (3 / 10)) 1) five_pages
                [0, 1, 2, 3, 4]) = [0, 2, 1, 3, 4]"
    by (simp add: engine_defs refine_defs pair_similarity_def)
  have k: "round_double (round_double (1 / 10) + round_double (2 / 10))
           > round_double (1 / 10) + 2 / 10"
    by (simp add: double_constants)
  have l: "map page_index
             (optimize_continuity
                (pair_similarity (round_double (1 / 10))
                   (round_double (round_double (1 / 10) + round_double (2 / 10))))
                five_pages [0, 1, 2, 3, 4]) = [0, 1, 2, 3, 4]"
    by (simp add: engine_defs refine_defs pair_similarity_def)
  have m: "map page_index
             (claimed_refinement
                (pair_similarity (round_double (1 / 10))
                   (round_double (round_double (1 / 10) + round_double (2 / 10))))
                five_pages [0, 1, 2, 3, 4]) = [0, 2, 1, 3, 4]"
    by (simp add: engine_defs refine_defs pair_similarity_def)
  show ?thesis
    by (intro conjI) (rule a, rule b, rule c, rule d [THEN conjunct1], rule d [THEN conjunct2],
        rule e, rule f, rule g, rule h, rule i, rule j, rule k, rule l, rule m)
qed

text \<open>
  Claim C8, amended. The refinement runs on the structure-order path only, and only with
  more than 3 content pages. It is one pass over the positions \<open>i = 0, \<dots>, n - 2\<close> from
  left to right that uses the similarities of neighbours computed before the pass: where
  that similarity is less than the double 0.3 and \<open>i + 3 < n\<close>, the pages (and
  embeddings) at positions \<open>i + 1\<close> and \<open>i + 2\<close> are swapped when the similarity of the
  current embeddings at \<open>i\<close> and \<open>i + 2\<close> is greater than the double-precision sum of
  that similarity and the double 0.2.
\<close>

theorem continuity_refinement_amended:
  "(length embeddings' = length pages' \<longrightarrow>
      optimize_continuity sim pages' embeddings'
        = assign_positions (amended_refinement sim pages' embeddings'))
   \<and> (filter (\<lambda>p. \<not> is_blank p) pages \<noteq> []
        \<and> order_pages_hybrid sim pages embeddings = Inr (out, md) \<longrightarrow>
        (use_page_numbers (filter (\<lambda>p. \<not> is_blank p) pages) \<longrightarrow>
           out = assign_positions
                   (order_pages_by_page_numbers (filter (\<lambda>p. \<not> is_blank p) pages)
                      @ filter is_blank pages))
      \<and> (\<not> use_page_numbers (filter (\<lambda>p. \<not> is_blank p) pages)
           \<and> length (filter (\<lambda>p. \<not> is_blank p) pages) \<le> 3 \<longrightarrow>
           out = assign_positions
                   (sort_key content_sort_key (filter (\<lambda>p. \<not> is_blank p) pages)
                      @ filter is_blank pages))
      \<and> (\<not> use_page_numbers (filter (\<lambda>p. \<not> is_blank p) pages)
           \<and> length (filter (\<lambda>p. \<not> is_blank p) pages) > 3 \<longrightarrow>
           (\<exists>es. gather_embeddings embeddings
                    (sort_key content_sort_key (filter (\<lambda>p. \<not> is_blank p) pages)) = Inr es
                \<and> out = assign_positions
                          (amended_refinement sim
                             (sort_key content_sort_key (filter (\<lambda>p. \<not> is_blank p) pages)) es
                           @ filter is_blank pages))))"
proof -
  let ?c = "filter (\<lambda>p. \<not> is_blank p) pages"
  let ?b = "filter is_blank pages"
  let ?s = "sort_key content_sort_key ?c"
  have A: "length embeddings' = length pages' \<longrightarrow>
      optimize_continuity sim pages' embeddings'
        = assign_positions (amended_refinement sim pages' embeddings')"
    using optimize_continuity_amended by blast
  have B: "out = assign_positions (order_pages_by_page_numbers ?c @ ?b)"
    if "?c \<noteq> []" "order_pages_hybrid sim pages embeddings = Inr (out, md)" "use_page_numbers ?c"
    using that by (simp add: order_pages_hybrid_def Let_def)
  have C: "out = assign_positions (?s @ ?b)"
    if "?c \<noteq> []" "order_pages_hybrid sim pages embeddings = Inr (out, md)"
       "\<not> use_page_numbers ?c" "length ?c \<le> 3"
    using that by (simp add: order_pages_hybrid_def Let_def)
  have D: "\<exists>es. gather_embeddings embeddings ?s = Inr es
                \<and> out = assign_positions (amended_refinement sim ?s es @ ?b)"
    if h: "?c \<noteq> []" "order_pages_hybrid sim pages embeddings = Inr (out, md)"
       "\<not> use_page_numbers ?c" "length ?c > 3"
  proof -
    from h obtain es where g: "gather_embeddings embeddings ?s = Inr es"
      and o: "out = assign_positions (optimize_continuity sim (assign_positions ?s) es @ ?b)"
      by (auto simp: order_pages_hybrid_def Let_def split: sum.splits)
    from gather_embeddings_length [OF g] have "length es = length (assign_positions ?s)"
      by simp
    from optimize_continuity_amended [OF this] o
    have "out = assign_positions (amended_refinement sim (assign_positions ?s) es @ ?b)"
      by simp
    with g show ?thesis by (simp add: amended_assign_positions)
  qed
  from A B C D show ?thesis by blast
qed

theorem continuity_refinement_amended_witness:
  "length [0::nat, 1, 0, 0, 0] = length five_pages
   \<and> optimize_continuity unit_similarity five_pages [0, 1, 0, 0, 0]
       = assign_positions (amended_refinement unit_similarity five_pages [0, 1, 0, 0, 0])
   \<and> map page_index (amended_refinement unit_similarity five_pages [0, 1, 0, 0, 0]) = [0, 2, 3, 1, 4]
   \<and> \<not> use_page_numbers (filter (\<lambda>p. \<not> is_blank p) four_pages)
   \<and> length (filter (\<lambda>p. \<not> is_blank p) four_pages) > 3
   \<and> (\<exists>es. gather_embeddings [0::nat, 0, 1, 0]
               (sort_key content_sort_key (filter (\<lambda>p. \<not> is_blank p) four_pages)) = Inr es
           \<and> assign_positions four_pages
              = assign_positions
                  (amended_refinement unit_similarity
                     (sort_key content_sort_key (filter (\<lambda>p. \<not> is_blank p) four_pages)) es
                   @ filter is_blank four_pages))"
proof -
  let ?md = "ordering_metadata 4 four_pages [] ''section_numbers_primary''"
  have h1: "length [0::nat, 1, 0, 0, 0] = length five_pages"
    by (simp add: five_pages_def)
  have h2: "filter (\<lambda>p. \<not> is_blank p) four_pages \<noteq> []"
    by (simp add: engine_defs refine_defs)
  have h3: "order_pages_hybrid unit_similarity four_pages [0, 0, 1, 0]
              = Inr (assign_positions four_pages, ?md)"
    by (simp add: engine_defs refine_defs)
  have h4: "\<not> use_page_numbers (filter (\<lambda>p. \<not> is_blank p) four_pages)"
    by (simp add: engine_defs refine_defs)
  have h5: "length (filter (\<lambda>p. \<not> is_blank p) four_pages) > 3"
    by (simp add: engine_defs refine_defs)
  have e: "map page_index (amended_refinement unit_similarity five_pages [0, 1, 0, 0, 0]) = [0, 2, 3, 1, 4]"
    by (simp add: engine_defs refine_defs)
  note t = continuity_refinement_amended
             [of "[0, 1, 0, 0, 0]" five_pages unit_similarity four_pages "[0, 0, 1, 0]"
                 "assign_positions four_pages" ?md]
  from t h1 have a: "optimize_continuity unit_similarity five_pages [0, 1, 0, 0, 0]
       = assign_positions (amended_refinement unit_similarity five_pages [0, 1, 0, 0, 0])"
    by blast
  from t h2 h3 h4 h5 have b: "\<exists>es. gather_embeddings [0::nat, 0, 1, 0]
               (sort_key content_sort_key (filter (\<lambda>p. \<not> is_blank p) four_pages)) = Inr es
           \<and> assign_positions four_pages
              = assign_positions
                  (amended_refinement unit_similarity
                     (sort_key content_sort_key (filter (\<lambda>p. \<not> is_blank p) four_pages)) es
                   @ filter is_blank four_pages)"
    by blast
  from h1 a e h4 h5 b show ?thesis by blast
qed

subsection \<open>Ordering by page numbers\<close>

lemma map_filter_assign_positions:
  assumes P: "\<And>p v. P (p\<lparr>new_position := v\<rparr>) = P p"
      and f: "\<And>p v. f (p\<lparr>new_position := v\<rparr>) = f p"
  shows "map f (filter P (assign_positions xs)) = map f (filter P xs)"
proof -
  have e: "map f ys = map f (map forget_position ys)" for ys
    by (simp add: forget_position_def f)
  have "map f (filter P (assign_positions xs))
        = map f (map forget_position (filter P (assign_positions xs)))"
    by (rule e)
  also have "\<dots> = map f (map forget_position (filter P xs))"
    by (simp only: filter_assign_positions [of P xs, OF P])
  also have "\<dots> = map f (filter P xs)"
    by (rule e [symmetric])
  finally show ?thesis .
qed

lemma trusted_update [simp]: "trusted_number (p\<lparr>new_position := v\<rparr>) = trusted_number p"
  by (simp add: trusted_number_def detected_def)

lemma page_num_update [simp]: "page_num (p\<lparr>new_position := v\<rparr>) = page_num p"
  by (simp add: page_num_def detected_def)

lemma section_sort_key_update [simp]:
  "section_sort_key (p\<lparr>new_position := v\<rparr>) = section_sort_key p"
  by (simp add: section_sort_key_def split: option.splits)

lemma order_group_update [simp]: "order_group (p\<lparr>new_position := v\<rparr>) = order_group p"
  by (simp add: order_group_def)

lemma forget_update [simp]: "forget_position (p\<lparr>new_position := v\<rparr>) = forget_position p"
  by (simp add: forget_position_def)

lemma hybrid_number_order:
  assumes c: "filter (\<lambda>p. \<not> is_blank p) pages \<noteq> []"
      and u: "use_page_numbers (filter (\<lambda>p. \<not> is_blank p) pages)"
  shows "order_pages_hybrid sim pages embs =
         Inr (assign_positions
                (sort_key page_num (filter (\<lambda>p. order_group p = 0) pages)
                 @ sort_key section_sort_key (filter (\<lambda>p. order_group p = 1) pages)
                 @ filter (\<lambda>p. order_group p = 2) pages),
              ordering_metadata (length pages) (filter (\<lambda>p. \<not> is_blank p) pages)
                (filter is_blank pages) ''page_numbers_primary'')"
proof -
  have 0: "filter (\<lambda>p. \<not> is_blank p \<and> trusted_number p) pages
           = filter (\<lambda>p. order_group p = 0) pages"
    by (rule filter_cong) (auto simp: order_group_def)
  have 1: "filter (\<lambda>p. \<not> is_blank p \<and> \<not> trusted_number p) pages
           = filter (\<lambda>p. order_group p = 1) pages"
    by (rule filter_cong) (auto simp: order_group_def)
  have 2: "filter is_blank pages = filter (\<lambda>p. order_group p = 2) pages"
    by (rule filter_cong) (auto simp: order_group_def)
  have "order_pages_hybrid sim pages embs =
         Inr (assign_positions
                (sort_key page_num (filter (\<lambda>p. \<not> is_blank p \<and> trusted_number p) pages)
                 @ sort_key section_sort_key
                     (filter (\<lambda>p. \<not> is_blank p \<and> \<not> trusted_number p) pages)
                 @ filter is_blank pages),
              ordering_metadata (length pages) (filter (\<lambda>p. \<not> is_blank p) pages)
                (filter is_blank pages) ''page_numbers_primary'')"
    using c u by (simp add: order_pages_hybrid_def Let_def order_pages_by_page_numbers_def)
  then show ?thesis unfolding 0 1 2 [symmetric] by simp
qed

lemma filter_group_const:
  "\<forall>p\<in>set xs. order_group p = h \<Longrightarrow>
   filter (\<lambda>p. order_group p = g \<and> Q p) xs = (if g = h then filter Q xs else [])"
  by (induction xs) auto

lemma filter_group_parts:
  "filter (\<lambda>p. order_group p = g \<and> Q p)
     (sort_key k0 (filter (\<lambda>p. order_group p = 0) pages)
      @ sort_key k1 (filter (\<lambda>p. order_group p = 1) pages)
      @ filter (\<lambda>p. order_group p = 2) pages)
   = (if g = 0 then filter Q (sort_key k0 (filter (\<lambda>p. order_group p = 0) pages))
      else if g = 1 then filter Q (sort_key k1 (filter (\<lambda>p. order_group p = 1) pages))
      else if g = 2 then filter Q (filter (\<lambda>p. order_group p = 2) pages)
      else [])"
proof -
  have 0: "\<forall>p\<in>set (sort_key k0 (filter (\<lambda>p. order_group p = 0) pages)). order_group p = 0"
    by simp
  have 1: "\<forall>p\<in>set (sort_key k1 (filter (\<lambda>p. order_group p = 1) pages)). order_group p = 1"
    by simp
  have 2: "\<forall>p\<in>set (filter (\<lambda>p. order_group p = 2) pages). order_group p = 2"
    by simp
  show ?thesis
    unfolding filter_append filter_group_const [OF 0] filter_group_const [OF 1]
      filter_group_const [OF 2]
    by simp
qed

lemma sorted_const: "\<forall>x\<in>set xs. x = (c::nat) \<Longrightarrow> sorted xs"
  by (induction xs) auto

lemma sorted_groups:
  "sorted (map order_group
     (sort_key k0 (filter (\<lambda>p. order_group p = 0) pages)
      @ sort_key k1 (filter (\<lambda>p. order_group p = 1) pages)
      @ filter (\<lambda>p. order_group p = 2) pages))"
proof -
  have "sorted (map order_group (sort_key k0 (filter (\<lambda>p. order_group p = 0) pages)))"
    by (rule sorted_const [of _ 0]) simp
  moreover have "sorted (map order_group (sort_key k1 (filter (\<lambda>p. order_group p = 1) pages)))"
    by (rule sorted_const [of _ 1]) simp
  moreover have "sorted (map order_group (filter (\<lambda>p. order_group p = 2) pages))"
    by (rule sorted_const [of _ 2]) simp
  ultimately show ?thesis
    by (simp add: sorted_append)
qed

lemma group_partition_mset:
  "mset (sort_key k0 (filter (\<lambda>p. order_group p = 0) pages)
         @ sort_key k1 (filter (\<lambda>p. order_group p = 1) pages)
         @ filter (\<lambda>p. order_group p = 2) pages) = mset pages"
proof (induction pages)
  case Nil
  then show ?case by simp
next
  case (Cons p ps)
  have "order_group p = 0 \<or> order_group p = 1 \<or> order_group p = 2"
    by (simp add: order_group_def)
  with Cons show ?case by auto
qed

lemma number_order_properties:
  assumes c: "filter (\<lambda>p. \<not> is_blank p) pages \<noteq> []"
      and u: "use_page_numbers (filter (\<lambda>p. \<not> is_blank p) pages)"
      and r: "order_pages_hybrid sim pages embs = Inr (out, md)"
  shows "sorted (map order_group out)"
    and "sorted (map page_num (filter (\<lambda>p. order_group p = 0) out))"
    and "sorted (map section_sort_key (filter (\<lambda>p. order_group p = 1) out))"
    and "map forget_position (filter (\<lambda>p. order_group p = 0 \<and> page_num p = k) out)
         = map forget_position (filter (\<lambda>p. order_group p = 0 \<and> page_num p = k) pages)"
    and "map forget_position (filter (\<lambda>p. order_group p = 1 \<and> section_sort_key p = v) out)
         = map forget_position (filter (\<lambda>p. order_group p = 1 \<and> section_sort_key p = v) pages)"
    and "mset (map forget_position out) = mset (map forget_position pages)"
proof -
  let ?A = "sort_key page_num (filter (\<lambda>p. order_group p = 0) pages)"
  let ?B = "sort_key section_sort_key (filter (\<lambda>p. order_group p = 1) pages)"
  let ?X = "?A @ ?B @ filter (\<lambda>p. order_group p = 2) pages"
  from hybrid_number_order [OF c u, of sim embs] r
  have out: "out = assign_positions ?X" by simp
  have "map order_group out = map order_group ?X"
    unfolding out by (rule map_assign_positions) simp
  then show "sorted (map order_group out)"
    using sorted_groups [where ?k0.0 = page_num and ?k1.0 = section_sort_key and pages = pages] by simp
  have f0: "filter (\<lambda>p. order_group p = 0 \<and> Q p) ?X = filter Q ?A" for Q
    using filter_group_parts [where g = 0 and Q = Q and ?k0.0 = page_num and ?k1.0 = section_sort_key and pages = pages] by simp
  have f1: "filter (\<lambda>p. order_group p = 1 \<and> Q p) ?X = filter Q ?B" for Q
    using filter_group_parts [where g = 1 and Q = Q and ?k0.0 = page_num and ?k1.0 = section_sort_key and pages = pages] by simp
  have "map page_num (filter (\<lambda>p. order_group p = 0 \<and> True) out)
        = map page_num (filter (\<lambda>p. order_group p = 0 \<and> True) ?X)"
    unfolding out by (rule map_filter_assign_positions) simp_all
  also have "\<dots> = map page_num ?A"
    unfolding f0 by simp
  finally show "sorted (map page_num (filter (\<lambda>p. order_group p = 0) out))"
    by simp
  have "map section_sort_key (filter (\<lambda>p. order_group p = 1 \<and> True) out)
        = map section_sort_key (filter (\<lambda>p. order_group p = 1 \<and> True) ?X)"
    unfolding out by (rule map_filter_assign_positions) simp_all
  also have "\<dots> = map section_sort_key ?B"
    unfolding f1 by simp
  finally show "sorted (map section_sort_key (filter (\<lambda>p. order_group p = 1) out))"
    by simp
  have "map forget_position (filter (\<lambda>p. order_group p = 0 \<and> page_num p = k) out)
        = map forget_position (filter (\<lambda>p. order_group p = 0 \<and> page_num p = k) ?X)"
    unfolding out by (rule filter_assign_positions) simp
  also have "\<dots> = map forget_position (filter (\<lambda>p. page_num p = k) ?A)"
    unfolding f0 by simp
  also have "filter (\<lambda>p. page_num p = k) ?A
             = filter (\<lambda>p. page_num p = k) (filter (\<lambda>p. order_group p = 0) pages)"
    by (rule sort_key_stable)
  also have "\<dots> = filter (\<lambda>p. order_group p = 0 \<and> page_num p = k) pages"
    by (simp add: conj_commute)
  finally show "map forget_position (filter (\<lambda>p. order_group p = 0 \<and> page_num p = k) out)
         = map forget_position (filter (\<lambda>p. order_group p = 0 \<and> page_num p = k) pages)" .
  have "map forget_position (filter (\<lambda>p. order_group p = 1 \<and> section_sort_key p = v) out)
        = map forget_position (filter (\<lambda>p. order_group p = 1 \<and> section_sort_key p = v) ?X)"
    unfolding out by (rule filter_assign_positions) simp
  also have "\<dots> = map forget_position (filter (\<lambda>p. section_sort_key p = v) ?B)"
    unfolding f1 by simp
  also have "filter (\<lambda>p. section_sort_key p = v) ?B
             = filter (\<lambda>p. section_sort_key p = v) (filter (\<lambda>p. order_group p = 1) pages)"
    by (rule sort_key_stable)
  also have "\<dots> = filter (\<lambda>p. order_group p = 1 \<and> section_sort_key p = v) pages"
    by (simp add: conj_commute)
  finally show "map forget_position (filter (\<lambda>p. order_group p = 1 \<and> section_sort_key p = v) out)
         = map forget_position (filter (\<lambda>p. order_group p = 1 \<and> section_sort_key p = v) pages)" .
  have "mset (map forget_position ?X) = mset (map forget_position pages)"
    using group_partition_mset [where ?k0.0 = page_num and ?k1.0 = section_sort_key and pages = pages] by (metis mset_map)
  then show "mset (map forget_position out) = mset (map forget_position pages)"
    unfolding out by simp
qed

text \<open>
  Claim C3. As stated, every page with a detected number is placed by its number. The two
  pages below both carry a number and the engine selects number order (coverage 1,
  sequential score 1), yet the page numbered 2 comes before the page numbered 1: the
  number 1 has confidence 0.5, which \<^verbatim>\<open>order_pages_by_page_numbers\<close> does not trust
  (\<^verbatim>\<open>confidence > 0.5\<close>), so that page is ordered with the pages without a number.
\<close>

theorem number_order_counterexample:
  "order_pages_hybrid no_similarity [standalone_page_0, second_page_1] [0, 1]
     = Inr ([second_page_1\<lparr>new_position := Some 0\<rparr>,
             standalone_page_0\<lparr>new_position := Some 1\<rparr>],
            ordering_metadata 2 [standalone_page_0, second_page_1] [] ''page_numbers_primary'')
   \<and> has_number (standalone_page_0\<lparr>new_position := Some 1\<rparr>)
   \<and> has_number (second_page_1\<lparr>new_position := Some 0\<rparr>)
   \<and> page_num (second_page_1\<lparr>new_position := Some 0\<rparr>) = 2
   \<and> page_num (standalone_page_0\<lparr>new_position := Some 1\<rparr>) = 1
   \<and> \<not> sorted (map page_num [second_page_1\<lparr>new_position := Some 0\<rparr>,
                               standalone_page_0\<lparr>new_position := Some 1\<rparr>])"
  by (simp add: standalone_page_0_def second_page_1_def engine_defs)

text \<open>
  Claim C3, amended. The engine selects number order exactly when coverage is at least 0.7
  and the sequential score exceeds 0.7. On that path the result is made of three blocks:
  the content pages with a detected number of confidence above 0.5, sorted by number; then
  the other content pages, sorted by section value when present (those first) and else by
  original index; then the blank pages. Pages with equal keys keep their order in the input
  list, and the result is a permutation of the input pages.
\<close>

theorem number_order_amended:
  "filter (\<lambda>p. \<not> is_blank p) pages \<noteq> [] \<longrightarrow>
     (order_pages_hybrid sim pages embeddings = Inr (out, md) \<longrightarrow>
        (map_of md ''ordering_method'' = Some (MStr ''page_numbers_primary''))
        = (page_number_coverage (filter (\<lambda>p. \<not> is_blank p) pages) \<ge> 7 / 10
           \<and> sequential_score (filter (\<lambda>p. \<not> is_blank p) pages) > 7 / 10))
   \<and> (page_number_coverage (filter (\<lambda>p. \<not> is_blank p) pages) \<ge> 7 / 10
        \<and> sequential_score (filter (\<lambda>p. \<not> is_blank p) pages) > 7 / 10 \<longrightarrow>
        (\<exists>out' md'. order_pages_hybrid sim pages embeddings = Inr (out', md'))
        \<and> (order_pages_hybrid sim pages embeddings = Inr (out, md) \<longrightarrow>
             sorted (map order_group out)
           \<and> sorted (map page_num (filter (\<lambda>p. order_group p = 0) out))
           \<and> sorted (map section_sort_key (filter (\<lambda>p. order_group p = 1) out))
           \<and> (\<forall>k. map forget_position (filter (\<lambda>p. order_group p = 0 \<and> page_num p = k) out)
                  = map forget_position
                      (filter (\<lambda>p. order_group p = 0 \<and> page_num p = k) pages))
           \<and> (\<forall>v. map forget_position
                    (filter (\<lambda>p. order_group p = 1 \<and> section_sort_key p = v) out)
                  = map forget_position
                      (filter (\<lambda>p. order_group p = 1 \<and> section_sort_key p = v) pages))
           \<and> mset (map forget_position out) = mset (map forget_position pages)))"
proof (intro impI conjI allI)
  let ?c = "filter (\<lambda>p. \<not> is_blank p) pages"
  assume c: "?c \<noteq> []"
  {
    assume r: "order_pages_hybrid sim pages embeddings = Inr (out, md)"
    from hybrid_metadata [OF c r]
    show "(map_of md ''ordering_method'' = Some (MStr ''page_numbers_primary''))
          = (page_number_coverage ?c \<ge> 7 / 10 \<and> sequential_score ?c > 7 / 10)"
      by (simp add: ordering_metadata_def use_page_numbers_def)
  }
  assume "page_number_coverage ?c \<ge> 7 / 10 \<and> sequential_score ?c > 7 / 10"
  then have u: "use_page_numbers ?c" by (simp add: use_page_numbers_def)
  from hybrid_number_order [OF c u, of sim embeddings]
  show "\<exists>out' md'. order_pages_hybrid sim pages embeddings = Inr (out', md')" by blast
  assume r: "order_pages_hybrid sim pages embeddings = Inr (out, md)"
  note p = number_order_properties [OF c u r]
  show "sorted (map order_group out)" by (rule p(1))
  show "sorted (map page_num (filter (\<lambda>p. order_group p = 0) out))" by (rule p(2))
  show "sorted (map section_sort_key (filter (\<lambda>p. order_group p = 1) out))" by (rule p(3))
  show "map forget_position (filter (\<lambda>p. order_group p = 0 \<and> page_num p = k) out)
        = map forget_position (filter (\<lambda>p. order_group p = 0 \<and> page_num p = k) pages)" for k
    by (rule p(4))
  show "map forget_position (filter (\<lambda>p. order_group p = 1 \<and> section_sort_key p = v) out)
        = map forget_position (filter (\<lambda>p. order_group p = 1 \<and> section_sort_key p = v) pages)"
    for v
    by (rule p(5))
  show "mset (map forget_position out) = mset (map forget_position pages)" by (rule p(6))
qed

theorem number_order_amended_witness:
  "filter (\<lambda>p. \<not> is_blank p) [standalone_page_0, second_page_1] \<noteq> []
   \<and> page_number_coverage (filter (\<lambda>p. \<not> is_blank p) [standalone_page_0, second_page_1])
       \<ge> 7 / 10
   \<and> sequential_score (filter (\<lambda>p. \<not> is_blank p) [standalone_page_0, second_page_1]) > 7 / 10
   \<and> order_pages_hybrid no_similarity [standalone_page_0, second_page_1] [0, 1]
       = Inr ([second_page_1\<lparr>new_position := Some 0\<rparr>,
               standalone_page_0\<lparr>new_position := Some 1\<rparr>],
              ordering_metadata 2 [standalone_page_0, second_page_1] [] ''page_numbers_primary'')
   \<and> map_of (ordering_metadata 2 [standalone_page_0, second_page_1] [] ''page_numbers_primary'')
        ''ordering_method'' = Some (MStr ''page_numbers_primary'')
   \<and> sorted (map order_group [second_page_1\<lparr>new_position := Some 0\<rparr>,
                               standalone_page_0\<lparr>new_position := Some 1\<rparr>])"
proof -
  let ?ps = "[standalone_page_0, second_page_1]"
  let ?out = "[second_page_1\<lparr>new_position := Some 0\<rparr>,
               standalone_page_0\<lparr>new_position := Some 1\<rparr>]"
  let ?md = "ordering_metadata 2 [standalone_page_0, second_page_1] [] ''page_numbers_primary''"
  have h1: "filter (\<lambda>p. \<not> is_blank p) ?ps \<noteq> []"
    by (simp add: standalone_page_0_def second_page_1_def engine_defs)
  have h2: "page_number_coverage (filter (\<lambda>p. \<not> is_blank p) ?ps) \<ge> 7 / 10
            \<and> sequential_score (filter (\<lambda>p. \<not> is_blank p) ?ps) > 7 / 10"
    by (simp add: standalone_page_0_def second_page_1_def engine_defs)
  have h3: "order_pages_hybrid no_similarity ?ps [0, 1] = Inr (?out, ?md)"
    by (simp add: standalone_page_0_def second_page_1_def engine_defs)
  note t = number_order_amended [of ?ps no_similarity "[0, 1]" ?out ?md]
  from t h1 h3 h2 have a: "map_of ?md ''ordering_method'' = Some (MStr ''page_numbers_primary'')"
    by blast
  from t h1 h2 h3 have b: "sorted (map order_group ?out)"
    by blast
  from h1 h2 h3 a b show ?thesis by blast
qed

section \<open>Properties of duplicate detection\<close>

lemma map_fst_hash_map_add:
  "map fst (hash_map_add h i hm)
   = (if h \<in> set (map fst hm) then map fst hm else map fst hm @ [h])"
  by (induction hm) force+

lemma map_of_hash_map_add:
  "map_of (hash_map_add h i hm)
   = (map_of hm)(h \<mapsto> (case map_of hm h of None \<Rightarrow> [i] | Some v \<Rightarrow> v @ [i]))"
  by (induction hm) (auto simp: fun_eq_iff)

lemma distinct_hash_map_add:
  "distinct (map fst hm) \<Longrightarrow> distinct (map fst (hash_map_add h i hm))"
  by (simp add: map_fst_hash_map_add)

lemma hash_map_upto_step:
  assumes "hash_map_upto K m hm"
  shows "hash_map_upto K (Suc m) (hash_map_add (K m) m hm)"
proof -
  from assms have d: "distinct (map fst hm)"
    and mo: "\<And>k. map_of hm k
              = (if \<exists>j<m. K j = k then Some (filter (\<lambda>j. K j = k) [0..<m]) else None)"
    by (simp_all add: hash_map_upto_def)
  have "map_of (hash_map_add (K m) m hm) k
        = (if \<exists>j<Suc m. K j = k then Some (filter (\<lambda>j. K j = k) [0..<Suc m]) else None)" for k
  proof (cases "k = K m")
    case True
    then show ?thesis
      by (auto simp: map_of_hash_map_add mo filter_empty_conv)
  next
    case False
    then have "(\<exists>j<Suc m. K j = k) = (\<exists>j<m. K j = k)"
      by (auto simp: less_Suc_eq)
    with False show ?thesis
      by (simp add: map_of_hash_map_add mo)
  qed
  with distinct_hash_map_add [OF d] show ?thesis
    by (simp add: hash_map_upto_def)
qed

lemma build_hash_map_upto:
  assumes "ps = drop m pages" "m \<le> length pages"
      and "hash_map_upto (page_key sha256 pages) m hm"
  shows "hash_map_upto (page_key sha256 pages) (length pages)
           (build_hash_map sha256 (enumerate m ps) hm)"
  using assms
proof (induction ps arbitrary: m hm)
  case Nil
  then have "m = length pages" by simp
  with Nil show ?case by simp
next
  case (Cons p ps)
  from Cons.prems(1) have m: "m < length pages"
    by (metis drop_eq_Nil list.distinct(1) not_le)
  with Cons.prems(1) have p: "p = pages ! m" and ps: "ps = drop (Suc m) pages"
    by (simp_all add: Cons_nth_drop_Suc [symmetric])
  from m have m': "Suc m \<le> length pages" by simp
  have "hash_map_upto (page_key sha256 pages) (Suc m)
          (hash_map_add (page_key sha256 pages m) m hm)"
    by (rule hash_map_upto_step) (rule Cons.prems(3))
  from Cons.IH [OF ps m' this] show ?case
    by (simp add: p page_key_def)
qed

lemma final_hash_map:
  "hash_map_upto (page_key sha256 pages) (length pages)
     (build_hash_map sha256 (enumerate 0 pages) [])"
  by (rule build_hash_map_upto) (simp_all add: hash_map_upto_def)

lemma hash_map_upto_mem:
  assumes "hash_map_upto K m hm"
  shows "(k, v) \<in> set hm \<longleftrightarrow> (\<exists>j<m. K j = k) \<and> v = filter (\<lambda>j. K j = k) [0..<m]"
proof -
  from assms have d: "distinct (map fst hm)"
    and mo: "map_of hm k = (if \<exists>j<m. K j = k then Some (filter (\<lambda>j. K j = k) [0..<m]) else None)"
    by (simp_all add: hash_map_upto_def)
  from d have "(k, v) \<in> set hm \<longleftrightarrow> map_of hm k = Some v" by simp
  with mo show ?thesis by auto
qed

lemma hash_map_upto_distinct_snd:
  assumes "hash_map_upto K m hm"
  shows "distinct (map snd hm)"
proof -
  from assms have d: "distinct (map fst hm)" by (simp add: hash_map_upto_def)
  then have dh: "distinct hm" by (simp add: distinct_map)
  have "inj_on snd (set hm)"
  proof (rule inj_onI)
    fix x y assume x: "x \<in> set hm" and y: "y \<in> set hm" and e: "snd x = snd y"
    obtain k v where xv: "x = (k, v)" by (cases x)
    obtain k' v' where yv: "y = (k', v')" by (cases y)
    from x xv hash_map_upto_mem [OF assms, of k v]
    obtain j where j: "j < m" "K j = k" and v: "v = filter (\<lambda>j. K j = k) [0..<m]" by auto
    from y yv hash_map_upto_mem [OF assms, of k' v']
    have v': "v' = filter (\<lambda>j. K j = k') [0..<m]" by auto
    from j v have "j \<in> set v" by simp
    with e xv yv have "j \<in> set v'" by simp
    with v' have "K j = k'" by simp
    with j e xv yv show "x = y" by simp
  qed
  with dh show ?thesis by (simp add: distinct_map)
qed

lemma find_exact_duplicates_set:
  "g \<in> set (find_exact_duplicates sha256 pages)
   \<longleftrightarrow> (\<exists>i<length pages. g = same_hash sha256 pages i) \<and> length g > 1"
proof -
  let ?K = "page_key sha256 pages"
  let ?hm = "build_hash_map sha256 (enumerate 0 pages) []"
  note f = final_hash_map [of sha256 pages]
  have "g \<in> set (map snd ?hm) \<longleftrightarrow> (\<exists>i<length pages. g = same_hash sha256 pages i)"
  proof
    assume "g \<in> set (map snd ?hm)"
    then obtain k where "(k, g) \<in> set ?hm" by auto
    with hash_map_upto_mem [OF f, of k g]
    obtain j where "j < length pages" "?K j = k"
      "g = filter (\<lambda>j. ?K j = k) [0..<length pages]" by auto
    then show "\<exists>i<length pages. g = same_hash sha256 pages i"
      by (auto simp: same_hash_def)
  next
    assume "\<exists>i<length pages. g = same_hash sha256 pages i"
    then obtain i where i: "i < length pages" "g = same_hash sha256 pages i" by blast
    with hash_map_upto_mem [OF f, of "?K i" g]
    have "(?K i, g) \<in> set ?hm" by (auto simp: same_hash_def)
    then show "g \<in> set (map snd ?hm)" by force
  qed
  then show ?thesis by (auto simp: find_exact_duplicates_def Let_def)
qed

lemma find_exact_duplicates_distinct:
  "distinct (find_exact_duplicates sha256 pages)"
  using hash_map_upto_distinct_snd [OF final_hash_map [of sha256 pages]]
  by (simp add: find_exact_duplicates_def Let_def)

lemma same_hash_bound: "d \<in> set (same_hash sha256 pages i) \<Longrightarrow> d < length pages"
  by (simp add: same_hash_def)

lemma same_hash_mem:
  "j \<in> set (same_hash sha256 pages i)
   \<longleftrightarrow> j < length pages \<and> page_key sha256 pages j = page_key sha256 pages i"
  by (auto simp: same_hash_def)

lemma same_hash_eq:
  "j \<in> set (same_hash sha256 pages i) \<Longrightarrow> same_hash sha256 pages j = same_hash sha256 pages i"
  by (simp add: same_hash_def)

lemma same_hash_distinct: "distinct (same_hash sha256 pages i)"
  by (simp add: same_hash_def)

lemma same_hash_sorted: "sorted (same_hash sha256 pages i)"
  by (simp add: same_hash_def sorted_wrt_filter)

lemma mark_group_effect:
  assumes "\<forall>d\<in>set ds. d < length ps"
  shows "\<exists>ps'. mark_group orig ds ps = Inr ps' \<and> length ps' = length ps
           \<and> (\<forall>i<length ps.
                 is_exact_duplicate (ps' ! i) = (is_exact_duplicate (ps ! i) \<or> i \<in> set ds)
               \<and> duplicate_of (ps' ! i)
                   = duplicate_of (ps ! i) @ replicate (count_list ds i) orig)"
  using assms
proof (induction ds arbitrary: ps)
  case Nil
  then show ?case by simp
next
  case (Cons d ds)
  let ?q = "ps[d := (ps ! d)\<lparr>is_exact_duplicate := True,
                              duplicate_of := duplicate_of (ps ! d) @ [orig]\<rparr>]"
  from Cons.prems have d: "d < length ps" and ds: "\<forall>d\<in>set ds. d < length ?q" by simp_all
  from Cons.IH [OF ds] obtain ps' where
    r: "mark_group orig ds ?q = Inr ps'" and l: "length ps' = length ?q" and
    e: "\<forall>i<length ?q.
          is_exact_duplicate (ps' ! i) = (is_exact_duplicate (?q ! i) \<or> i \<in> set ds)
        \<and> duplicate_of (ps' ! i) = duplicate_of (?q ! i) @ replicate (count_list ds i) orig"
    by blast
  have "is_exact_duplicate (ps' ! i) = (is_exact_duplicate (ps ! i) \<or> i \<in> set (d # ds))
        \<and> duplicate_of (ps' ! i)
            = duplicate_of (ps ! i) @ replicate (count_list (d # ds) i) orig"
    if i: "i < length ps" for i
  proof (cases "i = d")
    case True
    with e i d show ?thesis by (simp add: replicate_app_Cons_same)
  next
    case False
    with e i d show ?thesis by simp
  qed
  with r l d show ?case by simp
qed

lemma mark_exact_effect:
  assumes "\<forall>g\<in>set groups. \<forall>d\<in>set g. d < length ps"
  shows "\<exists>ps'. mark_exact groups ps = Inr ps' \<and> length ps' = length ps
           \<and> (\<forall>i<length ps.
                 is_exact_duplicate (ps' ! i)
                   = (is_exact_duplicate (ps ! i)
                      \<or> (\<exists>g\<in>set groups. length g > 1 \<and> i \<in> set (tl g)))
               \<and> duplicate_of (ps' ! i) = duplicate_of (ps ! i) @ exact_targets groups i)"
  using assms
proof (induction groups arbitrary: ps)
  case Nil
  then show ?case by (simp add: exact_targets_def)
next
  case (Cons g groups)
  show ?case
  proof (cases "length g > 1")
    case False
    from Cons.prems have "\<forall>g\<in>set groups. \<forall>d\<in>set g. d < length ps" by simp
    from Cons.IH [OF this] False show ?thesis by (simp add: exact_targets_def)
  next
    case True
    from Cons.prems have "\<forall>d\<in>set (tl g). d < length ps"
      by (metis list.set_sel(2) list.set_intros(1) tl_Nil empty_iff empty_set)
    from mark_group_effect [OF this, of "hd g"] obtain q where
      r: "mark_group (hd g) (tl g) ps = Inr q" and l: "length q = length ps" and
      e: "\<forall>i<length ps.
            is_exact_duplicate (q ! i) = (is_exact_duplicate (ps ! i) \<or> i \<in> set (tl g))
          \<and> duplicate_of (q ! i)
              = duplicate_of (ps ! i) @ replicate (count_list (tl g) i) (hd g)"
      by blast
    from Cons.prems l have "\<forall>g\<in>set groups. \<forall>d\<in>set g. d < length q" by simp
    from Cons.IH [OF this] obtain ps' where
      r': "mark_exact groups q = Inr ps'" and l': "length ps' = length q" and
      e': "\<forall>i<length q.
            is_exact_duplicate (ps' ! i)
              = (is_exact_duplicate (q ! i)
                 \<or> (\<exists>g\<in>set groups. length g > 1 \<and> i \<in> set (tl g)))
          \<and> duplicate_of (ps' ! i) = duplicate_of (q ! i) @ exact_targets groups i"
      by blast
    have "is_exact_duplicate (ps' ! i)
            = (is_exact_duplicate (ps ! i)
               \<or> (\<exists>g'\<in>set (g # groups). length g' > 1 \<and> i \<in> set (tl g')))
          \<and> duplicate_of (ps' ! i) = duplicate_of (ps ! i) @ exact_targets (g # groups) i"
      if "i < length ps" for i
      using that e e' l True by (auto simp: exact_targets_def)
    with r r' l l' True show ?thesis by simp
  qed
qed

lemma mark_near_effect:
  assumes "\<forall>t\<in>set near. fst (snd t) < length ps"
  shows "\<exists>ps'. mark_near near ps = Inr ps' \<and> length ps' = length ps
           \<and> (\<forall>i<length ps.
                 is_exact_duplicate (ps' ! i) = is_exact_duplicate (ps ! i)
               \<and> duplicate_of (ps' ! i)
                   = duplicate_of (ps ! i) @ map fst (filter (\<lambda>t. fst (snd t) = i) near))"
  using assms
proof (induction near arbitrary: ps)
  case Nil
  then show ?case by simp
next
  case (Cons t near)
  obtain idx1 idx2 similarity where t: "t = (idx1, idx2, similarity)" by (cases t)
  let ?q = "ps[idx2 := (ps ! idx2)\<lparr>is_near_duplicate := True,
                duplicate_of := duplicate_of (ps ! idx2) @ [idx1],
                duplicate_similarity := Some similarity\<rparr>]"
  from Cons.prems t have d: "idx2 < length ps" and ds: "\<forall>t\<in>set near. fst (snd t) < length ?q"
    by simp_all
  from Cons.IH [OF ds] obtain ps' where
    r: "mark_near near ?q = Inr ps'" and l: "length ps' = length ?q" and
    e: "\<forall>i<length ?q.
          is_exact_duplicate (ps' ! i) = is_exact_duplicate (?q ! i)
        \<and> duplicate_of (ps' ! i)
            = duplicate_of (?q ! i) @ map fst (filter (\<lambda>t. fst (snd t) = i) near)"
    by blast
  have "is_exact_duplicate (ps' ! i) = is_exact_duplicate (ps ! i)
        \<and> duplicate_of (ps' ! i)
            = duplicate_of (ps ! i) @ map fst (filter (\<lambda>t. fst (snd t) = i) (t # near))"
    if i: "i < length ps" for i
  proof (cases "i = idx2")
    case True
    with e i d t show ?thesis by simp
  next
    case False
    with e i d t show ?thesis by simp
  qed
  with r l d t show ?case by simp
qed

lemma count_list_distinct:
  "distinct xs \<Longrightarrow> count_list xs x = (if x \<in> set xs then 1 else 0)"
  by (induction xs) auto

lemma concat_single:
  "distinct gs \<Longrightarrow> \<forall>g\<in>set gs. g \<noteq> a \<longrightarrow> f g = [] \<Longrightarrow>
   concat (map f gs) = (if a \<in> set gs then f a else [])"
  by (induction gs) auto

lemma hd_sorted_le: "sorted xs \<Longrightarrow> x \<in> set xs \<Longrightarrow> hd xs \<le> (x::nat)"
  by (cases xs) auto

lemma same_hash_self: "i < length pages \<Longrightarrow> i \<in> set (same_hash sha256 pages i)"
  by (simp add: same_hash_mem)

lemma same_hash_hd:
  assumes i: "i < length pages"
  shows "hd (same_hash sha256 pages i) \<le> i"
    and "page_key sha256 pages (hd (same_hash sha256 pages i)) = page_key sha256 pages i"
    and "j < hd (same_hash sha256 pages i) \<Longrightarrow> page_key sha256 pages j \<noteq> page_key sha256 pages i"
proof -
  let ?a = "same_hash sha256 pages i"
  from same_hash_self [where ?sha256.0 = sha256, OF i] have ne: "?a \<noteq> []" by auto
  then have h: "hd ?a \<in> set ?a" by simp
  show "hd ?a \<le> i"
    by (rule hd_sorted_le [OF same_hash_sorted same_hash_self [where ?sha256.0 = sha256, OF i]])
  from h show "page_key sha256 pages (hd ?a) = page_key sha256 pages i"
    by (simp add: same_hash_mem)
  assume j: "j < hd ?a"
  show "page_key sha256 pages j \<noteq> page_key sha256 pages i"
  proof
    assume "page_key sha256 pages j = page_key sha256 pages i"
    moreover from j h have "j < length pages" using same_hash_bound [of "hd ?a"] 
      by (meson less_trans same_hash_bound)
    ultimately have "j \<in> set ?a" by (simp add: same_hash_mem)
    from hd_sorted_le [OF same_hash_sorted this] j show False by simp
  qed
qed

lemma later_occurrence:
  assumes i: "i < length pages"
  shows "(i \<in> set (tl (same_hash sha256 pages i)))
         = (\<exists>j<i. page_key sha256 pages j = page_key sha256 pages i)"
proof -
  let ?a = "same_hash sha256 pages i"
  from same_hash_self [where ?sha256.0 = sha256, OF i] have ne: "?a \<noteq> []" by auto
  then have c: "?a = hd ?a # tl ?a" by simp
  have d: "distinct (hd ?a # tl ?a)" using same_hash_distinct [of sha256 pages i] c by simp
  note h = same_hash_hd [where ?sha256.0 = sha256, OF i]
  show ?thesis
  proof
    assume "i \<in> set (tl ?a)"
    with d have "hd ?a \<noteq> i" by auto
    with h(1) have "hd ?a < i" by simp
    with h(2) show "\<exists>j<i. page_key sha256 pages j = page_key sha256 pages i" by blast
  next
    assume "\<exists>j<i. page_key sha256 pages j = page_key sha256 pages i"
    then obtain j where "j < i" "page_key sha256 pages j = page_key sha256 pages i" by blast
    with h(3) [where j = j] have "hd ?a \<noteq> i" by auto
    moreover from same_hash_self [where ?sha256.0 = sha256, OF i] c have "i = hd ?a \<or> i \<in> set (tl ?a)"
      by (metis set_ConsD)
    ultimately show "i \<in> set (tl ?a)" by auto
  qed
qed

lemma exact_flag_groups:
  assumes i: "i < length pages"
  shows "(\<exists>g\<in>set (find_exact_duplicates sha256 pages). length g > 1 \<and> i \<in> set (tl g))
         = (\<exists>j<i. page_key sha256 pages j = page_key sha256 pages i)"
proof
  assume "\<exists>g\<in>set (find_exact_duplicates sha256 pages). length g > 1 \<and> i \<in> set (tl g)"
  then obtain g where g: "g \<in> set (find_exact_duplicates sha256 pages)" "i \<in> set (tl g)"
    by blast
  from g(1) obtain j where "g = same_hash sha256 pages j"
    by (auto simp: find_exact_duplicates_set)
  moreover from g(2) have "i \<in> set g" by (metis list.set_sel(2) tl_Nil empty_iff empty_set)
  ultimately have "g = same_hash sha256 pages i" using same_hash_eq by metis
  with g(2) later_occurrence [where ?sha256.0 = sha256, OF i]
  show "\<exists>j<i. page_key sha256 pages j = page_key sha256 pages i" by simp
next
  let ?a = "same_hash sha256 pages i"
  assume e: "\<exists>j<i. page_key sha256 pages j = page_key sha256 pages i"
  with later_occurrence [where ?sha256.0 = sha256, OF i] have t: "i \<in> set (tl ?a)" by simp
  then have "tl ?a \<noteq> []" by auto
  then have "length ?a > 1" by (cases ?a) auto
  with i have "?a \<in> set (find_exact_duplicates sha256 pages)"
    by (auto simp: find_exact_duplicates_set)
  with t \<open>length ?a > 1\<close>
  show "\<exists>g\<in>set (find_exact_duplicates sha256 pages). length g > 1 \<and> i \<in> set (tl g)"
    by blast
qed

lemma exact_targets_groups:
  assumes i: "i < length pages"
  shows "exact_targets (find_exact_duplicates sha256 pages) i
         = (if \<exists>j<i. page_key sha256 pages j = page_key sha256 pages i
            then [hd (same_hash sha256 pages i)] else [])"
proof -
  let ?a = "same_hash sha256 pages i"
  let ?G = "find_exact_duplicates sha256 pages"
  let ?f = "\<lambda>g. if length g > 1 then replicate (count_list (tl g) i) (hd g) else []"
  have other: "\<forall>g\<in>set ?G. g \<noteq> ?a \<longrightarrow> ?f g = []"
  proof (intro ballI impI)
    fix g assume g: "g \<in> set ?G" and n: "g \<noteq> ?a"
    from g obtain j where j: "g = same_hash sha256 pages j"
      by (auto simp: find_exact_duplicates_set)
    have "i \<notin> set g"
    proof
      assume "i \<in> set g"
      with j same_hash_eq have "g = ?a" by metis
      with n show False by simp
    qed
    then have "i \<notin> set (tl g)" by (metis list.set_sel(2) tl_Nil empty_iff empty_set)
    then have "count_list (tl g) i = 0" by (simp add: count_list_0_iff)
    then show "?f g = []" by simp
  qed
  have e: "exact_targets ?G i = (if ?a \<in> set ?G then ?f ?a else [])"
    unfolding exact_targets_def
    by (rule concat_single [OF find_exact_duplicates_distinct other])
  have dt: "distinct (tl ?a)" by (simp add: distinct_tl same_hash_distinct)
  show ?thesis
  proof (cases "\<exists>j<i. page_key sha256 pages j = page_key sha256 pages i")
    case True
    with later_occurrence [where ?sha256.0 = sha256, OF i] have t: "i \<in> set (tl ?a)" by simp
    then have "tl ?a \<noteq> []" by auto
    then have l: "length ?a > 1" by (cases ?a) auto
    with i have "?a \<in> set ?G" by (auto simp: find_exact_duplicates_set)
    with e l t dt True show ?thesis by (simp add: count_list_distinct)
  next
    case False
    with later_occurrence [where ?sha256.0 = sha256, OF i] have "i \<notin> set (tl ?a)" by simp
    then have "count_list (tl ?a) i = 0" by (simp add: count_list_0_iff)
    with e False show ?thesis by simp
  qed
qed

lemma mark_duplicates_effect:
  assumes near: "\<forall>t\<in>set near. fst (snd t) < length pages"
  shows "\<exists>marked. mark_duplicates pages (find_exact_duplicates sha256 pages) near = Inr marked
           \<and> length marked = length pages
           \<and> (\<forall>i<length pages.
                 is_exact_duplicate (marked ! i)
                   = (\<exists>j<i. page_key sha256 pages j = page_key sha256 pages i)
               \<and> duplicate_of (marked ! i)
                   = (if \<exists>j<i. page_key sha256 pages j = page_key sha256 pages i
                      then [hd (same_hash sha256 pages i)] else [])
                     @ map fst (filter (\<lambda>t. fst (snd t) = i) near))"
proof -
  let ?G = "find_exact_duplicates sha256 pages"
  let ?p0 = "map init_flags pages"
  have "\<forall>g\<in>set ?G. \<forall>d\<in>set g. d < length ?p0"
    by (auto simp: find_exact_duplicates_set same_hash_bound)
  from mark_exact_effect [OF this] obtain q where
    r: "mark_exact ?G ?p0 = Inr q" and l: "length q = length ?p0" and
    e: "\<forall>i<length ?p0.
          is_exact_duplicate (q ! i)
            = (is_exact_duplicate (?p0 ! i) \<or> (\<exists>g\<in>set ?G. length g > 1 \<and> i \<in> set (tl g)))
        \<and> duplicate_of (q ! i) = duplicate_of (?p0 ! i) @ exact_targets ?G i"
    by blast
  from near l have "\<forall>t\<in>set near. fst (snd t) < length q" by simp
  from mark_near_effect [OF this] obtain marked where
    r': "mark_near near q = Inr marked" and l': "length marked = length q" and
    e': "\<forall>i<length q.
          is_exact_duplicate (marked ! i) = is_exact_duplicate (q ! i)
        \<and> duplicate_of (marked ! i)
            = duplicate_of (q ! i) @ map fst (filter (\<lambda>t. fst (snd t) = i) near)"
    by blast
  have "is_exact_duplicate (marked ! i)
          = (\<exists>j<i. page_key sha256 pages j = page_key sha256 pages i)
        \<and> duplicate_of (marked ! i)
            = (if \<exists>j<i. page_key sha256 pages j = page_key sha256 pages i
               then [hd (same_hash sha256 pages i)] else [])
              @ map fst (filter (\<lambda>t. fst (snd t) = i) near)"
    if i: "i < length pages" for i
  proof -
    from i have 0: "is_exact_duplicate (?p0 ! i) = False" "duplicate_of (?p0 ! i) = []"
      by (simp_all add: init_flags_def)
    from e i 0 have "is_exact_duplicate (q ! i)
                      = (\<exists>g\<in>set ?G. length g > 1 \<and> i \<in> set (tl g))"
      and "duplicate_of (q ! i) = exact_targets ?G i" by simp_all
    with e' l i exact_flag_groups [OF i, of sha256] exact_targets_groups [OF i, of sha256]
    show ?thesis by simp
  qed
  with r r' l l' show ?thesis by (simp add: mark_duplicates_def)
qed

lemma first_occurrence_hd:
  assumes i: "i < length pages" and j: "j < i"
      and k: "page_key sha256 pages j = page_key sha256 pages i"
      and f: "\<forall>j'<j. page_key sha256 pages j' \<noteq> page_key sha256 pages i"
  shows "hd (same_hash sha256 pages i) = j"
proof -
  let ?a = "same_hash sha256 pages i"
  from i j k have "j \<in> set ?a" by (simp add: same_hash_mem)
  from hd_sorted_le [OF same_hash_sorted this] have "hd ?a \<le> j" .
  moreover have "\<not> hd ?a < j"
    using f same_hash_hd(2) [where ?sha256.0 = sha256, OF i] by auto
  ultimately show ?thesis by simp
qed

lemma abac_normalized:
  "lower (strip ''  Alpha page '') = ''alpha page''"
  "lower (strip ''Beta'') = ''beta''"
  "lower (strip ''alpha PAGE'') = ''alpha page''"
  "lower (strip ''Gamma'') = ''gamma''"
  by code_simp+

lemma abac_marked:
  "\<exists>marked. mark_duplicates abac_pages [[0, 2]] [] = Inr marked
           \<and> map is_exact_duplicate marked = [False, False, True, False]
           \<and> map duplicate_of marked = [[], [], [0], []]"
  by (simp add: mark_duplicates_def init_flags_def abac_pages_def text_page_def make_page_def)

lemma abac_example:
  assumes "sha256 ''alpha page'' \<noteq> sha256 ''beta''"
      and "sha256 ''alpha page'' \<noteq> sha256 ''gamma''"
      and "sha256 ''beta'' \<noteq> sha256 ''gamma''"
  shows "find_exact_duplicates sha256 abac_pages = [[0, 2]]"
proof -
  from assms have n: "sha256 ''beta'' \<noteq> sha256 ''alpha page''"
    "sha256 ''gamma'' \<noteq> sha256 ''alpha page''" "sha256 ''gamma'' \<noteq> sha256 ''beta''"
    by simp_all
  show "find_exact_duplicates sha256 abac_pages = [[0, 2]]"
    using assms n
    by (simp add: find_exact_duplicates_def compute_page_hash_def abac_normalized
                  abac_pages_def text_page_def make_page_def enumerate_eq_zip Let_def)
qed

text \<open>
  Claim C7. \<^verbatim>\<open>find_exact_duplicates\<close> returns, once each, the groups of more than one page
  index whose normalised texts have the same hash, each group in ascending order. After
  \<^verbatim>\<open>mark_duplicates\<close>, page \<open>i\<close> is flagged \<open>is_exact_duplicate\<close> exactly when an
  earlier page has its hash; its first duplicate target is then the first page with that
  hash (targets of near-duplicate pairs follow), and the first page of a group is never
  flagged. For the texts A, B, A, C with pairwise different hashes the only group is
  \<open>[0, 2]\<close> and only page 2 is flagged, with target 0.
\<close>

theorem exact_duplicates_spec:
  "(g \<in> set (find_exact_duplicates sha256 pages) \<longleftrightarrow>
      length g > 1
      \<and> (\<exists>i<length pages.
            g = filter (\<lambda>j. page_key sha256 pages j = page_key sha256 pages i)
                  [0..<length pages]))
   \<and> distinct (find_exact_duplicates sha256 pages)
   \<and> ((\<forall>t\<in>set near. fst (snd t) < length pages) \<longrightarrow>
        (\<exists>marked.
           mark_duplicates pages (find_exact_duplicates sha256 pages) near = Inr marked
           \<and> length marked = length pages
           \<and> (\<forall>i<length pages.
                 is_exact_duplicate (marked ! i)
                   = (\<exists>j<i. page_key sha256 pages j = page_key sha256 pages i)
               \<and> (\<forall>j. j < i \<and> page_key sha256 pages j = page_key sha256 pages i
                        \<and> (\<forall>j'<j. page_key sha256 pages j' \<noteq> page_key sha256 pages i) \<longrightarrow>
                        duplicate_of (marked ! i)
                          = j # map fst (filter (\<lambda>t. fst (snd t) = i) near))
               \<and> ((\<forall>j<i. page_key sha256 pages j \<noteq> page_key sha256 pages i) \<longrightarrow>
                    duplicate_of (marked ! i) = map fst (filter (\<lambda>t. fst (snd t) = i) near)))))
   \<and> (sha256 ''alpha page'' \<noteq> sha256 ''beta'' \<and> sha256 ''alpha page'' \<noteq> sha256 ''gamma''
        \<and> sha256 ''beta'' \<noteq> sha256 ''gamma'' \<longrightarrow>
        find_exact_duplicates sha256 abac_pages = [[0, 2]]
        \<and> (\<exists>marked. mark_duplicates abac_pages [[0, 2]] [] = Inr marked
               \<and> map is_exact_duplicate marked = [False, False, True, False]
               \<and> map duplicate_of marked = [[], [], [0], []]))"
proof (intro conjI impI)
  show "g \<in> set (find_exact_duplicates sha256 pages) \<longleftrightarrow>
      length g > 1
      \<and> (\<exists>i<length pages.
            g = filter (\<lambda>j. page_key sha256 pages j = page_key sha256 pages i)
                  [0..<length pages])"
    by (auto simp: find_exact_duplicates_set same_hash_def)
  show "distinct (find_exact_duplicates sha256 pages)"
    by (rule find_exact_duplicates_distinct)
next
  assume "\<forall>t\<in>set near. fst (snd t) < length pages"
  from mark_duplicates_effect [OF this, of sha256] obtain marked where
    r: "mark_duplicates pages (find_exact_duplicates sha256 pages) near = Inr marked"
    and l: "length marked = length pages"
    and e: "\<And>i. i < length pages \<Longrightarrow>
              is_exact_duplicate (marked ! i)
                = (\<exists>j<i. page_key sha256 pages j = page_key sha256 pages i)
              \<and> duplicate_of (marked ! i)
                  = (if \<exists>j<i. page_key sha256 pages j = page_key sha256 pages i
                     then [hd (same_hash sha256 pages i)] else [])
                    @ map fst (filter (\<lambda>t. fst (snd t) = i) near)"
    by blast
  have "is_exact_duplicate (marked ! i)
          = (\<exists>j<i. page_key sha256 pages j = page_key sha256 pages i)
        \<and> (\<forall>j. j < i \<and> page_key sha256 pages j = page_key sha256 pages i
                 \<and> (\<forall>j'<j. page_key sha256 pages j' \<noteq> page_key sha256 pages i) \<longrightarrow>
                 duplicate_of (marked ! i) = j # map fst (filter (\<lambda>t. fst (snd t) = i) near))
        \<and> ((\<forall>j<i. page_key sha256 pages j \<noteq> page_key sha256 pages i) \<longrightarrow>
             duplicate_of (marked ! i) = map fst (filter (\<lambda>t. fst (snd t) = i) near))"
    if i: "i < length pages" for i
  proof (intro conjI allI impI)
    from e [OF i] show "is_exact_duplicate (marked ! i)
          = (\<exists>j<i. page_key sha256 pages j = page_key sha256 pages i)" by simp
  next
    fix j
    assume a: "j < i \<and> page_key sha256 pages j = page_key sha256 pages i
               \<and> (\<forall>j'<j. page_key sha256 pages j' \<noteq> page_key sha256 pages i)"
    then have "hd (same_hash sha256 pages i) = j"
      using first_occurrence_hd [OF i, of j sha256] by blast
    moreover from a have "\<exists>j<i. page_key sha256 pages j = page_key sha256 pages i" by blast
    ultimately show "duplicate_of (marked ! i)
                     = j # map fst (filter (\<lambda>t. fst (snd t) = i) near)"
      using e [OF i] by simp
  next
    assume "\<forall>j<i. page_key sha256 pages j \<noteq> page_key sha256 pages i"
    then have "\<not> (\<exists>j<i. page_key sha256 pages j = page_key sha256 pages i)" by blast
    with e [OF i] show "duplicate_of (marked ! i)
                        = map fst (filter (\<lambda>t. fst (snd t) = i) near)" by simp
  qed
  with r l show "\<exists>marked.
           mark_duplicates pages (find_exact_duplicates sha256 pages) near = Inr marked
           \<and> length marked = length pages
           \<and> (\<forall>i<length pages.
                 is_exact_duplicate (marked ! i)
                   = (\<exists>j<i. page_key sha256 pages j = page_key sha256 pages i)
               \<and> (\<forall>j. j < i \<and> page_key sha256 pages j = page_key sha256 pages i
                        \<and> (\<forall>j'<j. page_key sha256 pages j' \<noteq> page_key sha256 pages i) \<longrightarrow>
                        duplicate_of (marked ! i)
                          = j # map fst (filter (\<lambda>t. fst (snd t) = i) near))
               \<and> ((\<forall>j<i. page_key sha256 pages j \<noteq> page_key sha256 pages i) \<longrightarrow>
                    duplicate_of (marked ! i) = map fst (filter (\<lambda>t. fst (snd t) = i) near)))"
    by blast
next
  assume a: "sha256 ''alpha page'' \<noteq> sha256 ''beta'' \<and> sha256 ''alpha page'' \<noteq> sha256 ''gamma''
        \<and> sha256 ''beta'' \<noteq> sha256 ''gamma''"
  then show "find_exact_duplicates sha256 abac_pages = [[0, 2]]"
    using abac_example [of sha256] by blast
  show "\<exists>marked. mark_duplicates abac_pages [[0, 2]] [] = Inr marked
               \<and> map is_exact_duplicate marked = [False, False, True, False]
               \<and> map duplicate_of marked = [[], [], [0], []]"
    by (rule abac_marked)
qed

theorem exact_duplicates_spec_witness:
  "(\<lambda>s. s) ''alpha page'' \<noteq> (\<lambda>s. s) ''beta''
   \<and> find_exact_duplicates (\<lambda>s. s) abac_pages = [[0, 2]]
   \<and> fst (snd (1::nat, 3::nat, 24 / 25 :: rat)) < length abac_pages
   \<and> (\<exists>marked. mark_duplicates abac_pages (find_exact_duplicates (\<lambda>s. s) abac_pages)
                  [(1, 3, 24 / 25)] = Inr marked
          \<and> length marked = length abac_pages)"
proof -
  have h1: "(\<lambda>s. s) ''alpha page'' \<noteq> (\<lambda>s. s) ''beta''
            \<and> (\<lambda>s. s) ''alpha page'' \<noteq> (\<lambda>s. s) ''gamma''
            \<and> (\<lambda>s. s) ''beta'' \<noteq> (\<lambda>s::string. s) ''gamma''"
    by simp
  have h2: "\<forall>t\<in>set [(1::nat, 3::nat, 24 / 25 :: rat)]. fst (snd t) < length abac_pages"
    by (simp add: abac_pages_def)
  note t = exact_duplicates_spec [of "[0, 2]" "\<lambda>s. s" abac_pages "[(1, 3, 24 / 25)]"]
  from t h1 have a: "find_exact_duplicates (\<lambda>s. s) abac_pages = [[0, 2]]"
    by blast
  from t h2 have b: "\<exists>marked. mark_duplicates abac_pages
                        (find_exact_duplicates (\<lambda>s. s) abac_pages)
                        [(1, 3, 24 / 25)] = Inr marked
                      \<and> length marked = length abac_pages"
    by blast
  from h1 h2 a b show ?thesis by simp
qed

section \<open>Properties of the adapter fallback\<close>

lemma permutation_check:
  "(length order_indices = n \<and> set order_indices = int ` {0..<n})
   \<longleftrightarrow> mset order_indices = mset (map int [0..<n])"
proof
  assume a: "length order_indices = n \<and> set order_indices = int ` {0..<n}"
  then have "card (set order_indices) = length order_indices"
    by (simp add: card_image)
  then have "distinct order_indices" by (rule card_distinct)
  moreover have "distinct (map int [0..<n])" by (simp add: distinct_map)
  moreover from a have "set order_indices = set (map int [0..<n])" by simp
  ultimately show "mset order_indices = mset (map int [0..<n])"
    using set_eq_iff_mset_eq_distinct [of order_indices "map int [0..<n]"] by blast
next
  assume m: "mset order_indices = mset (map int [0..<n])"
  from mset_eq_length [OF m] have "length order_indices = n" by simp
  moreover from mset_eq_setD [OF m] have "set order_indices = int ` {0..<n}" by simp
  ultimately show "length order_indices = n \<and> set order_indices = int ` {0..<n}" ..
qed

lemma validate_invalid:
  assumes "correct_order result = None
           \<or> (\<exists>order_indices. correct_order result = Some order_indices
                 \<and> mset order_indices \<noteq> mset (map int [0..<length pages]))"
  shows "fst (validate_and_reorder result pages) = None
         \<and> map_of (snd (validate_and_reorder result pages)) ''error'' \<noteq> None"
proof (cases "correct_order result")
  case None
  then show ?thesis by (simp add: validate_and_reorder_def adapter_error_def)
next
  case (Some order_indices)
  with assms have "mset order_indices \<noteq> mset (map int [0..<length pages])" by simp
  then have "\<not> (length order_indices = length pages
                 \<and> set order_indices = int ` {0..<length pages})"
    by (simp add: permutation_check)
  with Some show ?thesis by (auto simp: validate_and_reorder_def adapter_error_def)
qed

lemma adapter_invalid:
  assumes "correct_order result = None
           \<or> (\<exists>order_indices. correct_order result = Some order_indices
                 \<and> mset order_indices \<noteq> mset (map int [0..<length pages]))"
  shows "fst (order_pages_with_gemini available api_key configure_ok (Parsed result) pages)
         = None"
    and "map_of (snd (order_pages_with_gemini available api_key configure_ok (Parsed result)
                        pages)) ''error'' \<noteq> None"
  using validate_invalid [OF assms]
  by (simp_all add: order_pages_with_gemini_def adapter_error_def)

lemma adapter_fallback_hybrid:
  assumes "correct_order result = None
           \<or> (\<exists>order_indices. correct_order result = Some order_indices
                 \<and> mset order_indices \<noteq> mset (map int [0..<length pages]))"
  shows "reorder_pages use_gemini available api_key configure_ok (Parsed result) sim pages
           embeddings
         = with_explanation (order_pages_hybrid sim pages embeddings)"
  using adapter_invalid(1) [OF assms, of True api_key configure_ok]
  by (simp add: reorder_pages_def Let_def)

lemma show_nat_examples: "show_nat (Suc 0) = ''1''" "show_nat (Suc (Suc 0)) = ''2''"
  by code_simp+

lemma explanation_untitled_move:
  "map page_index (fst (projr (order_pages_hybrid no_similarity untitled_first [0, 0, 0, 0, 0])))
     = [1, 2, 3, 4, 0]
   \<and> with_explanation (order_pages_hybrid no_similarity untitled_first [0, 0, 0, 0, 0])
       = Inl TypeError"
  by (simp add: engine_defs refine_defs untitled_first_def untitled_page_0_def
        introduction_page_def with_explanation_def generate_ordering_explanation_def
        no_similarity_def)

text \<open>
  Claim C4. When the reply of the adapter has no \<^verbatim>\<open>correct_order\<close> field, or a
  \<^verbatim>\<open>correct_order\<close> that is not a permutation of the page indices, the system records
  an error field in the metadata, raises no exception and falls back to the output of the
  hybrid engine. The adapter does return no pages and an error field (\<open>adapter_invalid\<close>),
  and step 7 does go on with the hybrid engine (\<open>adapter_fallback_hybrid\<close>). For the
  one-page document whose page is blank and a reply that names two pages, the hybrid engine
  takes its early return and hands the page back without a position, and step 7 ends in
  the \<^verbatim>\<open>KeyError\<close> that \<^verbatim>\<open>generate_ordering_explanation\<close> raises when it reads
  \<^verbatim>\<open>page["new_position"]\<close>: the caller gets an exception and no ordering.
\<close>

theorem adapter_fallback_raises:
  "correct_order repeated_index_result = Some [1, 1]
   \<and> order_pages_with_gemini True (Some ''key'') True (Parsed repeated_index_result)
        [blank_page_0]
      = (None, [(''error'', MStr ''Order has 2 pages but document has 1'')])
   \<and> order_pages_hybrid no_similarity [blank_page_0] [0]
      = Inr ([blank_page_0],
             [(''total_pages'', MNat 1), (''ordering_method'', MStr ''blank_only'')])
   \<and> generate_ordering_explanation [blank_page_0]
        [(''total_pages'', MNat 1), (''ordering_method'', MStr ''blank_only'')]
      = Inl KeyError
   \<and> reorder_pages True True (Some ''key'') True (Parsed repeated_index_result) no_similarity
        [blank_page_0] [0]
      = Inl KeyError"
proof -
  have a: "correct_order repeated_index_result = Some [1, 1]"
    by (simp add: repeated_index_result_def)
  have b: "order_pages_with_gemini True (Some ''key'') True (Parsed repeated_index_result)
             [blank_page_0]
           = (None, [(''error'', MStr ''Order has 2 pages but document has 1'')])"
    by (simp add: order_pages_with_gemini_def validate_and_reorder_def repeated_index_result_def
          adapter_error_def show_nat_examples blank_page_0_def make_page_def)
  have c: "order_pages_hybrid no_similarity [blank_page_0] [0]
           = Inr ([blank_page_0],
                  [(''total_pages'', MNat 1), (''ordering_method'', MStr ''blank_only'')])"
    by (simp add: blank_page_0_def engine_defs)
  have d: "generate_ordering_explanation [blank_page_0]
             [(''total_pages'', MNat 1), (''ordering_method'', MStr ''blank_only'')]
           = Inl KeyError"
    by (simp add: generate_ordering_explanation_def blank_page_0_def make_page_def)
  have e: "reorder_pages True True (Some ''key'') True (Parsed repeated_index_result)
             no_similarity [blank_page_0] [0]
           = Inl KeyError"
    using c d by (simp add: reorder_pages_def Let_def b with_explanation_def)
  show ?thesis by (intro conjI) (rule a, rule b, rule c, rule d, rule e)
qed

section \<open>Properties of section numbers\<close>


end
